theory Spec2Isabelle
  imports Complex_Main "HOL-Library.Word"
begin

section \<open>Errors\<close>

text \<open>
  The three \<^verbatim>\<open>throw new Error(...)\<close> sites of the modelled code: the \<^verbatim>\<open>Region\<close>
  constructor, the \<^verbatim>\<open>Range\<close> constructor and the \<^verbatim>\<open>PascalPlagiarismDetector\<close>
  constructor.
\<close>

datatype error =
  InvalidRegion int int int int
  | InvalidRange int int
  | WindowTooSmall

section \<open>Region\<close>

text \<open>
  \<^verbatim>\<open>class Region\<close> has four public numeric fields. Rows and columns are integers.
\<close>

record Region =
  startRow :: int
  startCol :: int
  endRow :: int
  endCol :: int

text \<open>\<^verbatim>\<open>static valid(startRow, startCol, endRow, endCol)\<close>\<close>

definition Region_valid :: "int \<Rightarrow> int \<Rightarrow> int \<Rightarrow> int \<Rightarrow> bool" where
  "Region_valid sr sc er ec = (sr < er \<or> (sr = er \<and> sc \<le> ec))"

text \<open>
  The constructor: it throws when \<^verbatim>\<open>!Region.valid(...)\<close>, and otherwise the object
  holds the four arguments.
\<close>

definition Region_new :: "int \<Rightarrow> int \<Rightarrow> int \<Rightarrow> int \<Rightarrow> error + Region" where
  "Region_new sr sc er ec =
     (if \<not> Region_valid sr sc er ec then Inl (InvalidRegion sr sc er ec)
      else Inr \<lparr>startRow = sr, startCol = sc, endRow = er, endCol = ec\<rparr>)"

text \<open>\<^verbatim>\<open>static merge(one, other)\<close>, ending in \<^verbatim>\<open>new Region(...)\<close>.\<close>

definition Region_merge :: "Region \<Rightarrow> Region \<Rightarrow> error + Region" where
  "Region_merge one other =
     (let sr = (if startRow one < startRow other then startRow one
                else if startRow one > startRow other then startRow other
                else startRow one);
          sc = (if startRow one < startRow other then startCol one
                else if startRow one > startRow other then startCol other
                else min (startCol one) (startCol other));
          er = (if endRow one > endRow other then endRow one
                else if endRow one < endRow other then endRow other
                else endRow one);
          ec = (if endRow one > endRow other then endCol one
                else if endRow one < endRow other then endCol other
                else max (endCol one) (endCol other))
      in Region_new sr sc er ec)"

text \<open>
  A Region object is well-formed when its fields satisfy the constructor's check.
\<close>

definition Region_wf :: "Region \<Rightarrow> bool" where
  "Region_wf r = Region_valid (startRow r) (startCol r) (endRow r) (endCol r)"

text \<open>
  Covering, for the statement that merge gives the smallest covering Region: the outer
  Region starts at or before the inner one and ends at or after it, positions compared
  row first and then by column (the order \<^verbatim>\<open>Region.valid\<close> itself tests).
\<close>

definition Region_covers :: "Region \<Rightarrow> Region \<Rightarrow> bool" where
  "Region_covers outer inner =
     (Region_valid (startRow outer) (startCol outer) (startRow inner) (startCol inner) \<and>
      Region_valid (endRow inner) (endCol inner) (endRow outer) (endCol outer))"

section \<open>Numbers\<close>

text \<open>
  The numbers of the modelled code are integers far below \<open>2 ^ 53\<close>, where the
  arithmetic of doubles is exact; they are modelled as \<^typ>\<open>nat\<close> where they cannot be
  negative and as \<^typ>\<open>int\<close> otherwise. Three operations of JavaScript differ from
  their HOL namesakes and are written out: \<^verbatim>\<open>%\<close> truncates towards zero (the result
  has the sign of the dividend), the bit operators \<^verbatim>\<open>&\<close> and \<^verbatim>\<open>>>\<close> first convert
  their operand to a signed 32-bit integer, and \<^verbatim>\<open>slice\<close> clamps its bounds.
\<close>

unbundle bit_operations_syntax

definition js_rem :: "int \<Rightarrow> int \<Rightarrow> int" where
  "js_rem a b = sgn a * (\<bar>a\<bar> mod \<bar>b\<bar>)"

definition toInt32 :: "int \<Rightarrow> int" where
  "toInt32 x = (x + 2 ^ 31) mod 2 ^ 32 - 2 ^ 31"

definition MAX_SAFE_INTEGER :: nat where
  "MAX_SAFE_INTEGER = 9007199254740991"

text \<open>\<^verbatim>\<open>Array.prototype.slice(begin, end)\<close>\<close>

definition slice :: "'a list \<Rightarrow> int \<Rightarrow> int \<Rightarrow> 'a list" where
  "slice xs b e =
     (let n = int (length xs);
          from = (if b < 0 then max (n + b) 0 else min b n);
          to = (if e < 0 then max (n + e) 0 else min e n)
      in take (nat (to - from)) (drop (nat from) xs))"

section \<open>TokenHash\<close>

text \<open>
  A token is a JavaScript string: a sequence of 16-bit code units, and
  \<^verbatim>\<open>charCodeAt(i)\<close> is the value of the \<open>i\<close>-th unit.
\<close>

type_synonym token = "16 word list"

definition TokenHash_mod :: nat where
  "TokenHash_mod = 33554393"

definition TokenHash_base :: nat where
  "TokenHash_base = 747287"

text \<open>\<^verbatim>\<open>hashToken\<close>: the loop over the indices of the string is a left fold.\<close>

definition hashToken :: "token \<Rightarrow> nat" where
  "hashToken token =
     foldl (\<lambda>hash c. ((hash + unat c) * TokenHash_base) mod TokenHash_mod) 0 token"

section \<open>RollingHash\<close>

definition RollingHash_mod :: nat where
  "RollingHash_mod = 33554393"

definition RollingHash_base :: nat where
  "RollingHash_base = 4194301"

text \<open>
  The fields of the class; \<open>rh_k\<close>, \<open>rh_i\<close> and \<open>rh_hash\<close> are \<^verbatim>\<open>k\<close>, \<^verbatim>\<open>i\<close> and
  \<^verbatim>\<open>hash\<close>.
\<close>

record RollingHash =
  rh_k :: nat
  memory :: "nat list"
  maxBase :: nat
  rh_i :: nat
  rh_hash :: nat

text \<open>
  \<^verbatim>\<open>modPow\<close>: the \<^verbatim>\<open>while (e > 1)\<close> loop with its three variables, then the final
  product. \<^verbatim>\<open>e & 1\<close> and \<^verbatim>\<open>e >>= 1\<close> work on the signed 32-bit value of \<open>e\<close>.
\<close>

function modPow_loop :: "nat \<Rightarrow> nat \<Rightarrow> int \<Rightarrow> nat \<Rightarrow> nat \<times> nat" where
  "modPow_loop y b e m =
     (if e > 1
      then modPow_loop (if toInt32 e AND 1 \<noteq> 0 then (b * y) mod m else y)
             ((b * b) mod m) (drop_bit 1 (toInt32 e)) m
      else (y, b))"
  by pat_completeness auto
termination
proof (relation "measure (\<lambda>(y, b, e, m). nat e)")
  show "wf (measure (\<lambda>(y, b, e, m). nat e))"
    by simp
next
  fix y b :: nat and e :: int and m :: nat
  assume e: "1 < e"
  have "toInt32 e \<le> e"
  proof (cases "e < 2 ^ 31")
    case True
    with e show ?thesis by (simp add: toInt32_def)
  next
    case False
    have "(e + 2 ^ 31) mod 2 ^ 32 < 2 ^ 32"
      by simp
    with False show ?thesis by (simp add: toInt32_def)
  qed
  then have "drop_bit 1 (toInt32 e) < e"
    using e by (simp add: drop_bit_eq_div)
  then show "((if toInt32 e AND 1 \<noteq> 0 then b * y mod m else y, b * b mod m,
       drop_bit 1 (toInt32 e), m), y, b, e, m) \<in> measure (\<lambda>(y, b, e, m). nat e)"
    using e by simp
qed

declare modPow_loop.simps [simp del]

definition modPow :: "nat \<Rightarrow> int \<Rightarrow> nat \<Rightarrow> nat" where
  "modPow base e m = (case modPow_loop 1 base e m of (y, b) \<Rightarrow> (b * y) mod m)"

text \<open>The constructor.\<close>

definition RollingHash_new :: "nat \<Rightarrow> RollingHash" where
  "RollingHash_new k =
     \<lparr>rh_k = k, memory = replicate k 0,
      maxBase = RollingHash_mod - modPow RollingHash_base (int k) RollingHash_mod,
      rh_i = 0, rh_hash = 0\<rparr>"

text \<open>
  \<^verbatim>\<open>nextHash\<close> updates the object and returns its new \<^verbatim>\<open>hash\<close> field: the model
  returns the updated object, whose \<open>rh_hash\<close> is the returned number.
  \<open>nextHash_sum\<close> is the value of the expression before \<^verbatim>\<open>% this.mod\<close>.
\<close>

definition nextHash_sum :: "RollingHash \<Rightarrow> nat \<Rightarrow> nat" where
  "nextHash_sum rh token =
     RollingHash_base * rh_hash rh + token + maxBase rh * (memory rh ! rh_i rh)"

definition nextHash :: "RollingHash \<Rightarrow> nat \<Rightarrow> RollingHash" where
  "nextHash rh token =
     rh\<lparr>rh_hash := nextHash_sum rh token mod RollingHash_mod,
        memory := (memory rh)[rh_i rh := token],
        rh_i := (rh_i rh + 1) mod rh_k rh\<rparr>"

text \<open>
  The reference the rolling hash is compared with, as the specification words it: the
  hash of a window of token hashes from scratch,
  \<open>\<Sum>j. window[j] * BASE ^ (k - 1 - j) mod MOD\<close>, and the same by Horner's rule.
\<close>

definition reference_hash :: "nat list \<Rightarrow> nat" where
  "reference_hash window =
     (\<Sum>j\<leftarrow>[0..<length window]. window ! j * RollingHash_base ^ (length window - 1 - j))
       mod RollingHash_mod"

definition horner_hash :: "nat list \<Rightarrow> nat" where
  "horner_hash window =
     foldl (\<lambda>h t. (RollingHash_base * h + t) mod RollingHash_mod) 0 window"

section \<open>WinnowFilter\<close>

record Fingerprint =
  data :: "token list option"
  hash :: nat
  start :: int
  stop :: int

text \<open>
  The local variables of \<^verbatim>\<open>fingerprints\<close>, as the state of its loop: \<open>hasher\<close> is the
  RollingHash \<^verbatim>\<open>hash\<close> and \<open>fps\<close> the array \<^verbatim>\<open>fingerprints\<close>; the buffer holds
  \<^verbatim>\<open>Number.MAX_SAFE_INTEGER\<close> in the slots not yet written.
\<close>

record WinnowState =
  hasher :: RollingHash
  filePos :: int
  bufferPos :: nat
  minPos :: nat
  buffer :: "nat list"
  fps :: "Fingerprint list"

definition hashTokens :: "token list \<Rightarrow> (nat \<times> token) list" where
  "hashTokens tokens = map (\<lambda>token. (hashToken token, token)) tokens"

text \<open>
  The inner \<^verbatim>\<open>for\<close> loop that looks for the new minimum, with loop variable \<open>i\<close>
  and the running \<open>minPos\<close>. Both indices stay below the window size, as every
  assignment to them ends in \<^verbatim>\<open>% this.windowSize\<close>; the first test of the guard only
  makes the function total outside that range.
\<close>

function rescan :: "nat \<Rightarrow> nat \<Rightarrow> nat list \<Rightarrow> nat \<Rightarrow> nat \<Rightarrow> nat" where
  "rescan w bufferPos' buf i minPos' =
     (if \<not> (i < w \<and> bufferPos' < w) \<or> i = bufferPos' then minPos'
      else rescan w bufferPos' buf ((i + 1) mod w)
             (if buf ! i \<le> buf ! minPos' then i else minPos'))"
  by pat_completeness auto
termination
proof (relation "measure (\<lambda>(w, bp, buf, i, mp). if i \<le> bp then bp - i else bp + w - i)")
  show "wf (measure (\<lambda>(w, bp, buf, i, mp). if i \<le> bp then bp - i else bp + w - i))"
    by simp
next
  fix w bp :: nat and buf :: "nat list" and i mp :: nat
  assume a: "\<not> (\<not> (i < w \<and> bp < w) \<or> i = bp)"
  then have iw: "i < w" and bw: "bp < w" and ne: "i \<noteq> bp"
    by auto
  show "((w, bp, buf, (i + 1) mod w, if buf ! i \<le> buf ! mp then i else mp), w, bp, buf, i, mp)
          \<in> measure (\<lambda>(w, bp, buf, i, mp). if i \<le> bp then bp - i else bp + w - i)"
  proof (cases "i + 1 < w")
    case True
    then show ?thesis using iw bw ne by auto
  next
    case False
    with iw have w: "i + 1 = w" by simp
    then have z: "(i + 1) mod w = 0" by simp
    from w bw ne have "bp < i" by simp
    then show ?thesis using w by (simp add: z)
  qed
qed

declare rescan.simps [simp del]

text \<open>
  The Fingerprint pushed in both branches, for the selected \<open>minPos\<close> (after
  \<^verbatim>\<open>bufferPos\<close> and \<^verbatim>\<open>filePos\<close> are advanced and the buffer is written).
\<close>

definition new_fingerprint ::
  "nat \<Rightarrow> nat \<Rightarrow> bool \<Rightarrow> token list \<Rightarrow> nat list \<Rightarrow> int \<Rightarrow> nat \<Rightarrow> nat \<Rightarrow> Fingerprint" where
  "new_fingerprint k w kgramData tokens buf filePos' bufferPos' minPos' =
     (let offset = js_rem (int minPos' - int bufferPos' - int w) (int w);
          start' = filePos' + offset
      in \<lparr>data = (if kgramData then Some (slice tokens start' (start' + int k)) else None),
          hash = buf ! minPos',
          start = start',
          stop = start' + int k - 1\<rparr>)"

text \<open>One iteration of the \<^verbatim>\<open>for ... of this.hashTokens(tokens)\<close> loop.\<close>

definition winnow_step ::
  "nat \<Rightarrow> nat \<Rightarrow> bool \<Rightarrow> token list \<Rightarrow> WinnowState \<Rightarrow> nat \<times> token \<Rightarrow> WinnowState" where
  "winnow_step k w kgramData tokens s ht =
     (let hashedToken = fst ht;
          filePos' = filePos s + 1
      in if filePos' < 0
         then s\<lparr>hasher := nextHash (hasher s) hashedToken, filePos := filePos'\<rparr>
         else
           let bufferPos' = (bufferPos s + 1) mod w;
               hasher' = nextHash (hasher s) hashedToken;
               buf = (buffer s)[bufferPos' := rh_hash hasher']
           in if minPos s = bufferPos'
              then
                let minPos' = rescan w bufferPos' buf ((bufferPos' + 1) mod w) (minPos s)
                in s\<lparr>hasher := hasher', filePos := filePos', bufferPos := bufferPos',
                     minPos := minPos', buffer := buf,
                     fps := fps s @
                       [new_fingerprint k w kgramData tokens buf filePos' bufferPos' minPos']\<rparr>
              else if buf ! bufferPos' \<le> buf ! minPos s
              then
                s\<lparr>hasher := hasher', filePos := filePos', bufferPos := bufferPos',
                   minPos := bufferPos', buffer := buf,
                   fps := fps s @
                     [new_fingerprint k w kgramData tokens buf filePos' bufferPos' bufferPos']\<rparr>
              else
                s\<lparr>hasher := hasher', filePos := filePos', bufferPos := bufferPos',
                   buffer := buf\<rparr>)"

definition winnow_init :: "nat \<Rightarrow> nat \<Rightarrow> WinnowState" where
  "winnow_init k w =
     \<lparr>hasher = RollingHash_new k, filePos = - int k, bufferPos = 0, minPos = 0,
      buffer = replicate w MAX_SAFE_INTEGER, fps = []\<rparr>"

text \<open>
  The state after the loop has consumed a list of hashed tokens, and
  \<^verbatim>\<open>WinnowFilter.fingerprints\<close> for a filter built with \<open>(k, windowSize, kgramData)\<close>.
\<close>

definition winnow_run :: "nat \<Rightarrow> nat \<Rightarrow> bool \<Rightarrow> token list \<Rightarrow> (nat \<times> token) list \<Rightarrow> WinnowState" where
  "winnow_run k w kgramData tokens hts =
     foldl (winnow_step k w kgramData tokens) (winnow_init k w) hts"

definition fingerprints :: "nat \<Rightarrow> nat \<Rightarrow> bool \<Rightarrow> token list \<Rightarrow> Fingerprint list" where
  "fingerprints k w kgramData tokens =
     fps (winnow_run k w kgramData tokens (hashTokens tokens))"

section \<open>FingerprintIndex\<close>

text \<open>
  Reading an array at a number: \<^verbatim>\<open>xs[i]\<close> is \<^verbatim>\<open>undefined\<close> (here \<open>None\<close>) outside
  \<open>0 \<le> i < length\<close>.
\<close>

definition js_index :: "'a list \<Rightarrow> int \<Rightarrow> 'a option" where
  "js_index xs i = (if 0 \<le> i \<and> i < int (length xs) then Some (xs ! nat i) else None)"

text \<open>
  \<^verbatim>\<open>class Range\<close>, with fields \<^verbatim>\<open>from\<close> and \<^verbatim>\<open>to\<close>. Its constructor replaces a
  \<^verbatim>\<open>to\<close> of \<open>-1\<close> (the default of the parameter) by \<^verbatim>\<open>from + 1\<close> and throws when
  \<^verbatim>\<open>from >= to\<close>.
\<close>

record Range =
  range_from :: int
  range_to :: int

definition Range_new :: "int \<Rightarrow> int \<Rightarrow> error + Range" where
  "Range_new from' to' =
     (let to'' = (if to' = - 1 then from' + 1 else to')
      in if from' \<ge> to'' then Inl (InvalidRange from' to'')
         else Inr \<lparr>range_from = from', range_to = to''\<rparr>)"

text \<open>
  The expression \<^verbatim>\<open>location\<close> of \<^verbatim>\<open>addFiles\<close>, from the per-token Regions of the
  file:
  \<^verbatim>\<open>file.regions[start] ? Region.merge(file.regions[start], file.regions[stop] || file.regions[start]) : new Region(0, 0, 0, 0)\<close>.
\<close>

definition addFiles_location :: "Region list \<Rightarrow> int \<Rightarrow> int \<Rightarrow> error + Region" where
  "addFiles_location tokenRegions start' stop' =
     (case js_index tokenRegions start' of
        Some r \<Rightarrow> Region_merge r (case js_index tokenRegions stop' of Some r2 \<Rightarrow> r2 | None \<Rightarrow> r)
      | None \<Rightarrow> Region_new 0 0 0 0)"

text \<open>
  What the body of the loop of \<^verbatim>\<open>addFiles\<close> computes for one fingerprint before it
  touches the index: first \<^verbatim>\<open>entry.kgrams.push(new Range(start, stop))\<close>, which may
  throw, then the \<^verbatim>\<open>location\<close>. The result is the pair of the Range pushed and the
  location. The rest of the body stores them in maps and sets and cannot throw.
\<close>

definition addFiles_fingerprint :: "Region list \<Rightarrow> int \<Rightarrow> int \<Rightarrow> error + Range \<times> Region" where
  "addFiles_fingerprint tokenRegions start' stop' =
     (case Range_new start' stop' of
        Inl e \<Rightarrow> Inl e
      | Inr kgramRange \<Rightarrow>
          (case addFiles_location tokenRegions start' stop' of
             Inl e \<Rightarrow> Inl e
           | Inr location \<Rightarrow> Inr (kgramRange, location)))"

section \<open>PascalPlagiarismDetector\<close>

text \<open>
  The detector holds \<^verbatim>\<open>kgramSize\<close> and \<^verbatim>\<open>windowSize\<close>; its WinnowFilter is
  \<^verbatim>\<open>new WinnowFilter(kgramSize, windowSize, true)\<close>. The constructor throws when the
  window is smaller than the k-gram.
\<close>

record PascalPlagiarismDetector =
  kgramSize :: nat
  windowSize :: nat

definition PascalPlagiarismDetector_new :: "nat \<Rightarrow> nat \<Rightarrow> error + PascalPlagiarismDetector" where
  "PascalPlagiarismDetector_new k w =
     (if w < k then Inl WindowTooSmall else Inr \<lparr>kgramSize = k, windowSize = w\<rparr>)"

text \<open>
  \<^verbatim>\<open>interface EnhancedFingerprint extends Fingerprint\<close>, built by
  \<^verbatim>\<open>{...fp, position: fp.start, kgram: fp.data || []}\<close>.
\<close>

record EnhancedFingerprint = Fingerprint +
  kgram :: "token list"
  position :: int

definition enhance :: "Fingerprint \<Rightarrow> EnhancedFingerprint" where
  "enhance fp =
     \<lparr>data = data fp, hash = hash fp, start = start fp, stop = stop fp,
      kgram = (case data fp of Some ts \<Rightarrow> ts | None \<Rightarrow> []),
      position = start fp\<rparr>"

text \<open>
  \<^verbatim>\<open>FingerprintData\<close>. Its field \<^verbatim>\<open>fingerprints\<close>, the \<^verbatim>\<open>Set\<close> of hashes, is
  \<open>fingerprintSet\<close> here, since \<open>fingerprints\<close> names the method of WinnowFilter.
\<close>

record FingerprintData =
  fingerprintSet :: "nat set"
  fingerprintArray :: "nat list"
  positionedFingerprints :: "EnhancedFingerprint list"
  regions :: "Region list"

text \<open>\<^verbatim>\<open>estimatePosition\<close> returns \<open>(line, column)\<close>.\<close>

definition estimatePosition :: "int \<Rightarrow> int \<times> int" where
  "estimatePosition tokenIndex = (tokenIndex div 10 + 1, js_rem tokenIndex 10 + 1)"

text \<open>
  A \<^verbatim>\<open>map\<close> whose callback may throw: the first exception, in the order of the
  elements, is the one that leaves the loop.
\<close>

fun sequence_err :: "(error + 'a) list \<Rightarrow> error + 'a list" where
  "sequence_err [] = Inr []"
| "sequence_err (x # xs) =
     (case x of
        Inl e \<Rightarrow> Inl e
      | Inr v \<Rightarrow> (case sequence_err xs of Inl e \<Rightarrow> Inl e | Inr vs \<Rightarrow> Inr (v # vs)))"

definition createRegionsFromFingerprints :: "EnhancedFingerprint list \<Rightarrow> error + Region list" where
  "createRegionsFromFingerprints fingerprints' =
     sequence_err
       (map (\<lambda>fp. let startPos = estimatePosition (start fp);
                      endPos = estimatePosition (stop fp)
                  in Region_new (fst startPos) (snd startPos) (fst endPos) (snd endPos))
          fingerprints')"

definition generateFingerprints ::
  "PascalPlagiarismDetector \<Rightarrow> token list \<Rightarrow> error + FingerprintData" where
  "generateFingerprints det tokens =
     (if length tokens < kgramSize det
      then Inr \<lparr>fingerprintSet = {}, fingerprintArray = [], positionedFingerprints = [],
                regions = []\<rparr>
      else
        let fingerprints' = fingerprints (kgramSize det) (windowSize det) True tokens;
            enhancedFingerprints = map enhance fingerprints'
        in case createRegionsFromFingerprints enhancedFingerprints of
             Inl e \<Rightarrow> Inl e
           | Inr regions' \<Rightarrow>
               Inr \<lparr>fingerprintSet = set (map hash fingerprints'),
                    fingerprintArray = map hash fingerprints',
                    positionedFingerprints = enhancedFingerprints,
                    regions = regions'\<rparr>)"

text \<open>
  A match of \<^verbatim>\<open>findSharedRegions\<close>, and a \<^verbatim>\<open>SharedRegion\<close>. The four
  \<^verbatim>\<open>{start, end}\<close> objects are pairs \<open>(start, end)\<close>. \<^verbatim>\<open>confidence\<close> is a quotient of
  small integers scaled by decimal constants; it is modelled by the real number the
  expression denotes.
\<close>

record Match =
  fp1 :: EnhancedFingerprint
  fp2 :: EnhancedFingerprint
  distance :: int

record SharedRegion =
  file1Range :: "int \<times> int"
  file2Range :: "int \<times> int"
  file1Lines :: "int \<times> int"
  file2Lines :: "int \<times> int"
  sharedTokens :: "token list"
  confidence :: real
  region1 :: Region
  region2 :: Region

text \<open>
  \<^verbatim>\<open>Math.min(...xs)\<close> and \<^verbatim>\<open>Math.max(...xs)\<close> of the positions of a cluster. They are
  only called on clusters, which hold at least two matches; on no arguments JavaScript
  gives an infinity, which the model does not represent (it returns 0 there).
\<close>

definition Math_min :: "int list \<Rightarrow> int" where
  "Math_min xs = (case xs of [] \<Rightarrow> 0 | x # ys \<Rightarrow> foldl min x ys)"

definition Math_max :: "int list \<Rightarrow> int" where
  "Math_max xs = (case xs of [] \<Rightarrow> 0 | x # ys \<Rightarrow> foldl max x ys)"

definition createSharedRegion ::
  "nat \<Rightarrow> Match list \<Rightarrow> token list \<Rightarrow> token list \<Rightarrow> error + SharedRegion" where
  "createSharedRegion k cluster tokens1 tokens2 =
     (let positions1 = map (\<lambda>m. (start (fp1 m), stop (fp1 m))) cluster;
          positions2 = map (\<lambda>m. (start (fp2 m), stop (fp2 m))) cluster;
          file1Range' = (Math_min (map fst positions1), Math_max (map snd positions1));
          file2Range' = (Math_min (map fst positions2), Math_max (map snd positions2));
          sharedTokens' = slice tokens1 (fst file1Range') (snd file1Range' + 1);
          regionLength = snd file1Range' - fst file1Range' + 1;
          clusterDensity = real (length cluster) / max 1 (real_of_int regionLength / real k);
          confidence' = min 1 (clusterDensity * (8 / 10)
                               + real_of_int regionLength / (real k * 5) * (2 / 10));
          region1Pos = estimatePosition (fst file1Range');
          region1End = estimatePosition (snd file1Range');
          region2Pos = estimatePosition (fst file2Range');
          region2End = estimatePosition (snd file2Range')
      in case Region_new (fst region1Pos) (snd region1Pos) (fst region1End) (snd region1End) of
           Inl e \<Rightarrow> Inl e
         | Inr region1' \<Rightarrow>
            (case Region_new (fst region2Pos) (snd region2Pos) (fst region2End) (snd region2End) of
               Inl e \<Rightarrow> Inl e
             | Inr region2' \<Rightarrow>
                 Inr \<lparr>file1Range = file1Range', file2Range = file2Range',
                      file1Lines = (fst region1Pos, fst region1End),
                      file2Lines = (fst region2Pos, fst region2End),
                      sharedTokens = sharedTokens', confidence = confidence',
                      region1 = region1', region2 = region2'\<rparr>))"

text \<open>\<^verbatim>\<open>Region.compare\<close> and \<^verbatim>\<open>overlapsWith\<close> (which sorts the two Regions first).\<close>

definition Region_compare :: "Region \<Rightarrow> Region \<Rightarrow> int" where
  "Region_compare left right =
     (if startRow left - startRow right \<noteq> 0 then startRow left - startRow right
      else if startCol left - startCol right \<noteq> 0 then startCol left - startCol right
      else if endRow left - endRow right \<noteq> 0 then endRow left - endRow right
      else endCol left - endCol right)"

definition overlapsWith :: "Region \<Rightarrow> Region \<Rightarrow> bool" where
  "overlapsWith this other =
     (let left = (if Region_compare this other \<le> 0 then this else other);
          right = (if Region_compare this other \<le> 0 then other else this)
      in if endRow left < startRow right then False
         else if endRow left = startRow right then startCol right < endCol left
         else True)"

text \<open>
  \<^verbatim>\<open>mergeOverlappingRegions\<close>: the merged \<^verbatim>\<open>current\<close> of one iteration, the loop over
  the sorted regions, and the method. \<^verbatim>\<open>sort\<close> is stable, as \<open>sort_key\<close> is.
\<close>

definition merge_current :: "SharedRegion \<Rightarrow> SharedRegion \<Rightarrow> error + SharedRegion" where
  "merge_current current next' =
     (case Region_merge (region1 current) (region1 next') of
        Inl e \<Rightarrow> Inl e
      | Inr mergedRegion1 \<Rightarrow>
         (case Region_merge (region2 current) (region2 next') of
            Inl e \<Rightarrow> Inl e
          | Inr mergedRegion2 \<Rightarrow>
              Inr \<lparr>file1Range = (min (fst (file1Range current)) (fst (file1Range next')),
                                 max (snd (file1Range current)) (snd (file1Range next'))),
                   file2Range = (min (fst (file2Range current)) (fst (file2Range next')),
                                 max (snd (file2Range current)) (snd (file2Range next'))),
                   file1Lines = (startRow mergedRegion1, endRow mergedRegion1),
                   file2Lines = (startRow mergedRegion2, endRow mergedRegion2),
                   sharedTokens = sharedTokens current @ sharedTokens next',
                   confidence = max (confidence current) (confidence next'),
                   region1 = mergedRegion1, region2 = mergedRegion2\<rparr>))"

fun merge_loop ::
  "SharedRegion list \<Rightarrow> SharedRegion \<Rightarrow> SharedRegion list \<Rightarrow> error + SharedRegion list" where
  "merge_loop merged current [] = Inr (merged @ [current])"
| "merge_loop merged current (next' # rest) =
     (if overlapsWith (region1 current) (region1 next')
      then (case merge_current current next' of
              Inl e \<Rightarrow> Inl e
            | Inr c \<Rightarrow> merge_loop merged c rest)
      else merge_loop (merged @ [current]) next' rest)"

definition mergeOverlappingRegions :: "SharedRegion list \<Rightarrow> error + SharedRegion list" where
  "mergeOverlappingRegions regions' =
     (if length regions' \<le> 1 then Inr regions'
      else let sorted = sort_key (\<lambda>r. fst (file1Range r)) regions'
           in merge_loop [] (hd sorted) (tl sorted))"

text \<open>
  \<^verbatim>\<open>clusterMatchesIntoRegions\<close>. \<open>shouldMerge\<close> is the constant of that name in the
  loop body, for the last match of the current cluster and the candidate match. The
  state of the loop is the pair \<open>(regions, currentCluster)\<close>, or the exception thrown
  by \<^verbatim>\<open>createSharedRegion\<close>.
\<close>

definition shouldMerge :: "nat \<Rightarrow> Match \<Rightarrow> Match \<Rightarrow> bool" where
  "shouldMerge k lastMatch match =
     (let gap1 = position (fp1 match) - stop (fp1 lastMatch);
          gap2 = \<bar>position (fp2 match) - stop (fp2 lastMatch)\<bar>;
          positionDrift = \<bar>(position (fp1 match) - position (fp1 lastMatch))
                            - (position (fp2 match) - position (fp2 lastMatch))\<bar>
      in gap1 \<le> int k * 2 \<and> gap2 \<le> int k * 2 \<and> positionDrift \<le> int k)"

definition cluster_step ::
  "nat \<Rightarrow> token list \<Rightarrow> token list \<Rightarrow> error + SharedRegion list \<times> Match list \<Rightarrow> Match
     \<Rightarrow> error + SharedRegion list \<times> Match list" where
  "cluster_step k tokens1 tokens2 st match =
     (case st of
        Inl e \<Rightarrow> Inl e
      | Inr (regions', currentCluster) \<Rightarrow>
          if currentCluster = [] then Inr (regions', [match])
          else if shouldMerge k (last currentCluster) match
          then Inr (regions', currentCluster @ [match])
          else if length currentCluster \<ge> 2
          then (case createSharedRegion k currentCluster tokens1 tokens2 of
                  Inl e \<Rightarrow> Inl e
                | Inr r \<Rightarrow> Inr (regions' @ [r], [match]))
          else Inr (regions', [match]))"

definition clusterMatchesIntoRegions ::
  "nat \<Rightarrow> Match list \<Rightarrow> token list \<Rightarrow> token list \<Rightarrow> error + SharedRegion list" where
  "clusterMatchesIntoRegions k matches tokens1 tokens2 =
     (case foldl (cluster_step k tokens1 tokens2) (Inr ([], [])) matches of
        Inl e \<Rightarrow> Inl e
      | Inr (regions', currentCluster) \<Rightarrow>
          if length currentCluster \<ge> 2
          then (case createSharedRegion k currentCluster tokens1 tokens2 of
                  Inl e \<Rightarrow> Inl e
                | Inr r \<Rightarrow> mergeOverlappingRegions (regions' @ [r]))
          else mergeOverlappingRegions regions')"

text \<open>
  \<^verbatim>\<open>findSharedRegions\<close>. The keys of a \<^verbatim>\<open>Map\<close> are visited in the order of their
  first insertion (\<open>insertion_order\<close>), and the array stored under a hash holds the
  fingerprints with that hash in their order.
\<close>

fun insertion_order :: "'a list \<Rightarrow> 'a list" where
  "insertion_order [] = []"
| "insertion_order (x # xs) = x # removeAll x (insertion_order xs)"

definition findMatches :: "EnhancedFingerprint list \<Rightarrow> EnhancedFingerprint list \<Rightarrow> Match list" where
  "findMatches fingerprints1 fingerprints2 =
     concat (map (\<lambda>h.
         let fps1 = filter (\<lambda>fp. hash fp = h) fingerprints1;
             fps2 = filter (\<lambda>fp. hash fp = h) fingerprints2
         in concat (map (\<lambda>a. map (\<lambda>b.
              \<lparr>fp1 = a, fp2 = b, distance = \<bar>position a - position b\<bar>\<rparr>) fps2) fps1))
       (insertion_order (map hash fingerprints1)))"

definition findSharedRegions ::
  "nat \<Rightarrow> EnhancedFingerprint list \<Rightarrow> EnhancedFingerprint list \<Rightarrow> token list \<Rightarrow> token list
     \<Rightarrow> error + SharedRegion list" where
  "findSharedRegions k fingerprints1 fingerprints2 tokens1 tokens2 =
     (let matches = findMatches fingerprints1 fingerprints2
      in if length matches = 0 then Inr []
         else clusterMatchesIntoRegions k (sort_key (\<lambda>m. position (fp1 m)) matches)
                tokens1 tokens2)"

text \<open>
  \<^verbatim>\<open>compareTwoFiles\<close>. The three quotients of set sizes are modelled by the real
  numbers they denote (the code rounds each to a double). The result leaves out
  \<^verbatim>\<open>qualityScore\<close>, which is computed from the other fields by arithmetic that cannot
  throw and feeds into none of them.
\<close>

record SimilarityResult =
  similarity :: real
  overlapSimilarity1 :: real
  overlapSimilarity2 :: real
  sharedFingerprints :: nat
  sharedRegions :: "SharedRegion list"

definition compareTwoFiles ::
  "PascalPlagiarismDetector \<Rightarrow> token list \<Rightarrow> token list \<Rightarrow> error + SimilarityResult" where
  "compareTwoFiles det tokens1 tokens2 =
     (case generateFingerprints det tokens1 of
        Inl e \<Rightarrow> Inl e
      | Inr fingerprints1 \<Rightarrow>
     (case generateFingerprints det tokens2 of
        Inl e \<Rightarrow> Inl e
      | Inr fingerprints2 \<Rightarrow>
          let intersection = {f \<in> fingerprintSet fingerprints1. f \<in> fingerprintSet fingerprints2};
              union = fingerprintSet fingerprints1 \<union> fingerprintSet fingerprints2;
              jaccardSimilarity =
                (if card union > 0 then real (card intersection) / real (card union) else 0);
              overlapSim1 =
                (if card (fingerprintSet fingerprints1) > 0
                 then real (card intersection) / real (card (fingerprintSet fingerprints1)) else 0);
              overlapSim2 =
                (if card (fingerprintSet fingerprints2) > 0
                 then real (card intersection) / real (card (fingerprintSet fingerprints2)) else 0)
          in case findSharedRegions (kgramSize det) (positionedFingerprints fingerprints1)
                    (positionedFingerprints fingerprints2) tokens1 tokens2 of
               Inl e \<Rightarrow> Inl e
             | Inr sharedRegions' \<Rightarrow>
                 Inr \<lparr>similarity = jaccardSimilarity, overlapSimilarity1 = overlapSim1,
                      overlapSimilarity2 = overlapSim2,
                      sharedFingerprints = card intersection,
                      sharedRegions = sharedRegions'\<rparr>))"

section \<open>Notions used by the statements and proofs\<close>

text \<open>
  None of the following is code of the repository. \<open>polyval\<close> is the polynomial
  \<open>\<Sum>j. ws[j] * BASE ^ (length ws - 1 - j)\<close> without the modulus; \<open>lastk k hs\<close> is the
  window of the \<open>k\<close> most recent token hashes, with zeros before the first one;
  \<open>rolling k hs\<close> is a fresh RollingHash after \<^verbatim>\<open>nextHash\<close> was called on each element
  of \<open>hs\<close>; \<open>kgram_hash k hs j\<close> is the number \<^verbatim>\<open>nextHash\<close> returns for the k-gram that
  starts at token \<open>j\<close>. The k-gram that starts at token \<open>j\<close> is written at index
  \<open>slot w j\<close> of the circular buffer; the window that ends with k-gram \<open>f\<close> holds the
  k-grams \<open>j\<close> with \<open>in_window w f j\<close>, and \<open>window_min\<close> says that \<open>j\<close> is one of them
  with the least hash. \<open>fp_at\<close> is the Fingerprint of k-gram \<open>j\<close>. \<open>RH_inv\<close> and \<open>W_inv\<close>
  are the loop invariants of the rolling hash and of \<^verbatim>\<open>fingerprints\<close>.
\<close>

fun polyval :: "nat list \<Rightarrow> nat" where
  "polyval [] = 0"
| "polyval (a # ws) = a * RollingHash_base ^ length ws + polyval ws"

definition lastk :: "nat \<Rightarrow> nat list \<Rightarrow> nat list" where
  "lastk k hs = drop (length hs) (replicate k 0 @ hs)"

definition rolling :: "nat \<Rightarrow> nat list \<Rightarrow> RollingHash" where
  "rolling k hs = foldl nextHash (RollingHash_new k) hs"

definition RH_inv :: "nat \<Rightarrow> nat list \<Rightarrow> RollingHash \<Rightarrow> bool" where
  "RH_inv k hs rh \<longleftrightarrow>
     rh_k rh = k \<and> length (memory rh) = k \<and> rh_i rh = length hs mod k \<and>
     maxBase rh = RollingHash_mod - RollingHash_base ^ k mod RollingHash_mod \<and>
     (\<forall>j<k. memory rh ! ((length hs + j) mod k) = lastk k hs ! j) \<and>
     rh_hash rh = polyval (lastk k hs) mod RollingHash_mod"

definition slot :: "nat \<Rightarrow> nat \<Rightarrow> nat" where
  "slot w j = (j + 1) mod w"

definition kgram_hash :: "nat \<Rightarrow> nat list \<Rightarrow> nat \<Rightarrow> nat" where
  "kgram_hash k hs j = rh_hash (rolling k (take (j + k) hs))"

definition in_window :: "nat \<Rightarrow> nat \<Rightarrow> nat \<Rightarrow> bool" where
  "in_window w f j \<longleftrightarrow> j \<le> f \<and> f < j + w"

definition window_min :: "nat \<Rightarrow> (nat \<Rightarrow> nat) \<Rightarrow> nat \<Rightarrow> nat \<Rightarrow> bool" where
  "window_min w g f j \<longleftrightarrow> in_window w f j \<and> (\<forall>j'. in_window w f j' \<longrightarrow> g j \<le> g j')"

definition fp_at :: "nat \<Rightarrow> bool \<Rightarrow> token list \<Rightarrow> (nat \<Rightarrow> nat) \<Rightarrow> nat \<Rightarrow> Fingerprint" where
  "fp_at k d tokens g j =
     \<lparr>data = (if d then Some (slice tokens (int j) (int j + int k)) else None),
      hash = g j, start = int j, stop = int j + int k - 1\<rparr>"

definition W_inv ::
  "nat \<Rightarrow> nat \<Rightarrow> bool \<Rightarrow> token list \<Rightarrow> nat list \<Rightarrow> nat \<Rightarrow> WinnowState \<Rightarrow> bool" where
  "W_inv k w d tokens hs n s \<longleftrightarrow>
     filePos s = int n - int k \<and> hasher s = rolling k (take n hs) \<and> length (buffer s) = w \<and>
     (if n < k
      then bufferPos s = 0 \<and> minPos s = 0 \<and> buffer s = replicate w MAX_SAFE_INTEGER \<and> fps s = []
      else
        bufferPos s = slot w (n - k) \<and>
        (\<forall>j. in_window w (n - k) j \<longrightarrow> buffer s ! slot w j = kgram_hash k hs j) \<and>
        (\<exists>jm. window_min w (kgram_hash k hs) (n - k) jm \<and> minPos s = slot w jm \<and>
              fp_at k d tokens (kgram_hash k hs) jm \<in> set (fps s)) \<and>
        (\<forall>fp\<in>set (fps s). \<exists>j\<le>n - k. fp = fp_at k d tokens (kgram_hash k hs) j) \<and>
        (\<forall>f0\<le>n - k. \<exists>j. window_min w (kgram_hash k hs) f0 j \<and>
              fp_at k d tokens (kgram_hash k hs) j \<in> set (fps s)))"

text \<open>
  For the detector: \<open>clusters k matches\<close> splits the sorted matches into the runs the
  loop of \<^verbatim>\<open>clusterMatchesIntoRegions\<close> builds, and \<open>closed_regions\<close> is the list of
  SharedRegions of the runs with at least two matches. \<open>fp_ok\<close>, \<open>match_ok\<close> and
  \<open>region_ok\<close> say that offsets are ordered and Regions well-formed, which is what keeps
  the Region constructor from throwing. \<open>jaccard X Y\<close> is \<open>|X \<inter> Y| / |X \<union> Y|\<close>, and 0
  for two empty sets. \<open>example_fp\<close> and \<open>example_match\<close> are a fingerprint of a 2-gram and a
  match of two of them, for a worked example.
\<close>

definition cluster_split_step :: "nat \<Rightarrow> Match list list \<Rightarrow> Match \<Rightarrow> Match list list" where
  "cluster_split_step k cs m =
     (if cs = [] then [[m]]
      else if shouldMerge k (last (last cs)) m then butlast cs @ [last cs @ [m]]
      else cs @ [[m]])"

definition clusters :: "nat \<Rightarrow> Match list \<Rightarrow> Match list list" where
  "clusters k ms = foldl (cluster_split_step k) [] ms"

definition closed_regions ::
  "nat \<Rightarrow> token list \<Rightarrow> token list \<Rightarrow> Match list list \<Rightarrow> error + SharedRegion list" where
  "closed_regions k tokens1 tokens2 cs =
     sequence_err (map (\<lambda>c. createSharedRegion k c tokens1 tokens2)
       (filter (\<lambda>c. 2 \<le> length c) cs))"

definition fp_ok :: "'a Fingerprint_scheme \<Rightarrow> bool" where
  "fp_ok fp \<longleftrightarrow> 0 \<le> start fp \<and> start fp \<le> stop fp"

definition match_ok :: "Match \<Rightarrow> bool" where
  "match_ok m \<longleftrightarrow> fp_ok (fp1 m) \<and> fp_ok (fp2 m)"

definition region_ok :: "SharedRegion \<Rightarrow> bool" where
  "region_ok r \<longleftrightarrow> Region_wf (region1 r) \<and> Region_wf (region2 r)"

definition jaccard :: "nat set \<Rightarrow> nat set \<Rightarrow> real" where
  "jaccard X Y = (if X \<union> Y = {} then 0 else real (card (X \<inter> Y)) / real (card (X \<union> Y)))"

definition example_fp :: "int \<Rightarrow> EnhancedFingerprint" where
  "example_fp j = \<lparr>data = None, hash = 7, start = j, stop = j + 1, kgram = [], position = j\<rparr>"

definition example_match :: "int \<Rightarrow> int \<Rightarrow> Match" where
  "example_match a b = \<lparr>fp1 = example_fp a, fp2 = example_fp b, distance = \<bar>a - b\<bar>\<rparr>"

text \<open>
  For the modulus: \<open>is_prime\<close> is primality of a natural number, and
  \<open>no_divisor_from n d\<close> checks by trial division that no number from \<open>d\<close> up to the
  square root of \<open>n\<close> divides \<open>n\<close>.
\<close>

function no_divisor_from :: "int \<Rightarrow> int \<Rightarrow> bool" where
  "no_divisor_from n d =
     (if n < d * d \<or> d \<le> 0 then True
      else if n mod d = 0 then False
      else no_divisor_from n (d + 1))"
  by pat_completeness auto
termination
proof (relation "measure (\<lambda>(n, d). nat (n + 1 - d))")
  show "wf (measure (\<lambda>(n, d). nat (n + 1 - d)))" by simp
next
  fix n d :: int
  assume a: "\<not> (n < d * d \<or> d \<le> 0)"
  then have "1 \<le> d" and "d * d \<le> n" by simp_all
  then have "d * 1 \<le> d * d" by (intro mult_left_mono) simp_all
  with \<open>d * d \<le> n\<close> have "d \<le> n" by simp
  then show "((n, d + 1), n, d) \<in> measure (\<lambda>(n, d). nat (n + 1 - d))" by simp
qed

declare no_divisor_from.simps [simp del]

definition is_prime :: "nat \<Rightarrow> bool" where
  "is_prime n \<longleftrightarrow> 1 < n \<and> (\<forall>d. d dvd n \<longrightarrow> d = 1 \<or> d = n)"

section \<open>Theorems about Region\<close>

text \<open>
  C7. Constructing a Region whose coordinates violate
  \<open>startRow < endRow \<or> (startRow = endRow \<and> startCol \<le> endCol)\<close> fails with an error and
  yields no object (for instance Region(5,0,3,0)); coordinates that satisfy the
  invariant construct the Region holding exactly those coordinates (for instance
  Region(2,0,2,5)).
\<close>

theorem Region_constructor_checks_invariant:
  "(\<not> (sr < er \<or> (sr = er \<and> sc \<le> ec)) \<longrightarrow>
      Region_new sr sc er ec = Inl (InvalidRegion sr sc er ec)) \<and>
   ((sr < er \<or> (sr = er \<and> sc \<le> ec)) \<longrightarrow>
      Region_new sr sc er ec = Inr \<lparr>startRow = sr, startCol = sc, endRow = er, endCol = ec\<rparr>) \<and>
   Region_new 5 0 3 0 = Inl (InvalidRegion 5 0 3 0) \<and>
   Region_new 2 0 2 5 = Inr \<lparr>startRow = 2, startCol = 0, endRow = 2, endCol = 5\<rparr>"
  by (simp add: Region_new_def Region_valid_def)

theorem Region_constructor_checks_invariant_witness:
  "\<not> ((7::int) < 4 \<or> ((7::int) = 4 \<and> (1::int) \<le> 0)) \<and>
   Region_new 7 1 4 0 = Inl (InvalidRegion 7 1 4 0) \<and>
   ((1::int) < 4 \<or> ((1::int) = 4 \<and> (9::int) \<le> 0)) \<and>
   Region_new 1 9 4 0 = Inr \<lparr>startRow = 1, startCol = 9, endRow = 4, endCol = 0\<rparr>"
  using Region_constructor_checks_invariant [of 7 4 1 0]
    Region_constructor_checks_invariant [of 1 4 9 0]
  by simp

lemma Region_merge_cover_aux:
  assumes "Region_wf one" and "Region_wf other"
  shows "\<exists>m. Region_merge one other = Inr m \<and> Region_wf m \<and>
           Region_covers m one \<and> Region_covers m other \<and>
           (\<forall>r. Region_covers r one \<and> Region_covers r other \<longrightarrow> Region_covers r m)"
proof -
  define sr where "sr = (if startRow one < startRow other then startRow one
                else if startRow one > startRow other then startRow other
                else startRow one)"
  define sc where "sc = (if startRow one < startRow other then startCol one
                else if startRow one > startRow other then startCol other
                else min (startCol one) (startCol other))"
  define er where "er = (if endRow one > endRow other then endRow one
                else if endRow one < endRow other then endRow other
                else endRow one)"
  define ec where "ec = (if endRow one > endRow other then endCol one
                else if endRow one < endRow other then endCol other
                else max (endCol one) (endCol other))"
  define m where "m = \<lparr>startRow = sr, startCol = sc, endRow = er, endCol = ec\<rparr>"
  have v: "Region_valid sr sc er ec"
    using assms unfolding Region_wf_def Region_valid_def sr_def sc_def er_def ec_def
    by (auto split: if_splits)
  have mg: "Region_merge one other = Inr m"
    using v unfolding Region_merge_def Region_new_def m_def sr_def sc_def er_def ec_def
    by (simp add: Let_def)
  have wf: "Region_wf m"
    using v by (simp add: Region_wf_def m_def)
  have c1: "Region_covers m one"
    unfolding Region_covers_def Region_valid_def m_def sr_def sc_def er_def ec_def
    by (auto split: if_splits)
  have c2: "Region_covers m other"
    unfolding Region_covers_def Region_valid_def m_def sr_def sc_def er_def ec_def
    by (auto split: if_splits)
  have least: "Region_covers r m" if "Region_covers r one \<and> Region_covers r other" for r
    using that
    unfolding Region_covers_def Region_valid_def m_def sr_def sc_def er_def ec_def
    by (auto split: if_splits)
  show ?thesis
    using mg wf c1 c2 least by blast
qed

text \<open>
  C8. For two well-formed Regions, merge succeeds, its result covers both, and every
  Region covering both covers the result: it is the smallest Region covering both.
  Merging Region(0,0,1,0) with Region(1,0,2,0) gives Region(0,0,2,0).
\<close>

theorem Region_merge_smallest_cover:
  "(Region_wf one \<and> Region_wf other \<longrightarrow>
      (\<exists>m. Region_merge one other = Inr m \<and> Region_wf m \<and>
           Region_covers m one \<and> Region_covers m other \<and>
           (\<forall>r. Region_covers r one \<and> Region_covers r other \<longrightarrow> Region_covers r m))) \<and>
   Region_merge \<lparr>startRow = 0, startCol = 0, endRow = 1, endCol = 0\<rparr>
           \<lparr>startRow = 1, startCol = 0, endRow = 2, endCol = 0\<rparr>
         = Inr \<lparr>startRow = 0, startCol = 0, endRow = 2, endCol = 0\<rparr>"
proof -
  have "Region_merge \<lparr>startRow = 0, startCol = 0, endRow = 1, endCol = 0\<rparr>
           \<lparr>startRow = 1, startCol = 0, endRow = 2, endCol = 0\<rparr>
         = Inr \<lparr>startRow = 0, startCol = 0, endRow = 2, endCol = 0\<rparr>"
    by (simp add: Region_merge_def Region_new_def Region_valid_def)
  then show ?thesis
    using Region_merge_cover_aux by blast
qed

theorem Region_merge_smallest_cover_witness:
  "Region_wf \<lparr>startRow = 0, startCol = 4, endRow = 1, endCol = 0\<rparr> \<and>
   Region_wf \<lparr>startRow = 0, startCol = 2, endRow = 0, endCol = 7\<rparr> \<and>
   Region_merge \<lparr>startRow = 0, startCol = 4, endRow = 1, endCol = 0\<rparr>
     \<lparr>startRow = 0, startCol = 2, endRow = 0, endCol = 7\<rparr>
     = Inr \<lparr>startRow = 0, startCol = 2, endRow = 1, endCol = 0\<rparr> \<and>
   Region_covers \<lparr>startRow = 0, startCol = 2, endRow = 1, endCol = 0\<rparr>
     \<lparr>startRow = 0, startCol = 4, endRow = 1, endCol = 0\<rparr> \<and>
   Region_covers \<lparr>startRow = 0, startCol = 2, endRow = 1, endCol = 0\<rparr>
     \<lparr>startRow = 0, startCol = 2, endRow = 0, endCol = 7\<rparr>"
proof -
  have a: "Region_wf \<lparr>startRow = 0, startCol = 4, endRow = 1, endCol = 0\<rparr>"
    by (simp add: Region_wf_def Region_valid_def)
  have b: "Region_wf \<lparr>startRow = 0, startCol = 2, endRow = 0, endCol = 7\<rparr>"
    by (simp add: Region_wf_def Region_valid_def)
  have e: "Region_merge \<lparr>startRow = 0, startCol = 4, endRow = 1, endCol = 0\<rparr>
     \<lparr>startRow = 0, startCol = 2, endRow = 0, endCol = 7\<rparr>
     = Inr \<lparr>startRow = 0, startCol = 2, endRow = 1, endCol = 0\<rparr>"
    by (simp add: Region_merge_def Region_new_def Region_valid_def)
  from Region_merge_smallest_cover
      [of "\<lparr>startRow = 0, startCol = 4, endRow = 1, endCol = 0\<rparr>"
          "\<lparr>startRow = 0, startCol = 2, endRow = 0, endCol = 7\<rparr>"] e a b
  show ?thesis
    by auto
qed


section \<open>Rolling hash\<close>

lemma polyval_snoc: "polyval (ws @ [t]) = RollingHash_base * polyval ws + t"
  by (induction ws) (simp_all add: algebra_simps)

lemma sum_list_upt_Suc_shift:
  "(\<Sum>j\<leftarrow>[0..<Suc n]. f j) = f 0 + (\<Sum>j\<leftarrow>[0..<n]. f (Suc j))"
proof -
  have "[0..<Suc n] = 0 # map Suc [0..<n]"
    by (simp add: upt_conv_Cons map_Suc_upt del: upt_Suc)
  then show ?thesis
    by (simp add: comp_def del: upt_Suc)
qed

lemma polyval_sum:
  "polyval ws = (\<Sum>j\<leftarrow>[0..<length ws]. ws ! j * RollingHash_base ^ (length ws - 1 - j))"
proof (induction ws)
  case Nil
  then show ?case by simp
next
  case (Cons a ws)
  show ?case
    unfolding length_Cons sum_list_upt_Suc_shift
    using Cons.IH by simp
qed

lemma reference_hash_polyval: "reference_hash ws = polyval ws mod RollingHash_mod"
  by (simp add: reference_hash_def polyval_sum)

lemma horner_hash_polyval: "horner_hash ws = polyval ws mod RollingHash_mod"
proof (induction ws rule: rev_induct)
  case Nil
  then show ?case by (simp add: horner_hash_def)
next
  case (snoc t ws)
  have "horner_hash (ws @ [t]) = (RollingHash_base * horner_hash ws + t) mod RollingHash_mod"
    by (simp add: horner_hash_def)
  also have "\<dots> = (RollingHash_base * (polyval ws mod RollingHash_mod) + t) mod RollingHash_mod"
    by (simp add: snoc.IH)
  also have "\<dots> = (RollingHash_base * polyval ws + t) mod RollingHash_mod"
    by (metis mod_add_left_eq mod_mult_right_eq)
  finally show ?case
    by (simp add: polyval_snoc)
qed

lemma toInt32_id: "0 \<le> e \<Longrightarrow> e < 2 ^ 31 \<Longrightarrow> toInt32 e = e"
  by (simp add: toInt32_def)

lemma modPow_loop_correct:
  "1 \<le> e \<Longrightarrow> e < 2 ^ 31 \<Longrightarrow>
   (case modPow_loop y b e m of (y', b') \<Rightarrow> (b' * y') mod m) = (b ^ nat e * y) mod m"
proof (induction y b e m rule: modPow_loop.induct)
  case (1 y b e m)
  show ?case
  proof (cases "e > 1")
    case False
    with "1.prems" have "e = 1" by simp
    then show ?thesis by (simp add: modPow_loop.simps)
  next
    case True
    have t: "toInt32 e = e"
      using "1.prems" by (simp add: toInt32_id)
    define e' where "e' = e div 2"
    have e'1: "1 \<le> e'" and e'2: "e' < 2 ^ 31"
      using True "1.prems" by (simp_all add: e'_def)
    have db: "drop_bit 1 (toInt32 e) = e'"
      by (simp add: t e'_def drop_bit_eq_div)
    have db2: "drop_bit (Suc 0) (toInt32 e) = e'"
      using db by simp
    have odd: "(toInt32 e AND 1 \<noteq> 0) = odd e"
      by (simp add: t and_one_eq mod_2_eq_odd)
    define y2 where "y2 = (if toInt32 e AND 1 \<noteq> 0 then b * y mod m else y)"
    have IH: "(case modPow_loop y2 (b * b mod m) e' m of (y', b') \<Rightarrow> (b' * y') mod m)
                = ((b * b mod m) ^ nat e' * y2) mod m"
      using "1.IH" [OF True] e'1 e'2 unfolding db y2_def by simp
    have unfold: "modPow_loop y b e m = modPow_loop y2 (b * b mod m) e' m"
      using True by (subst modPow_loop.simps) (simp add: db2 y2_def)
    have pw: "((b * b mod m) ^ nat e' * y2) mod m = ((b * b) ^ nat e' * y2) mod m"
      by (metis mod_mult_left_eq power_mod)
    have split: "e = 2 * e' + e mod 2"
      by (simp add: e'_def)
    have "((b * b) ^ nat e' * y2) mod m = (b ^ nat e * y) mod m"
    proof (cases "odd e")
      case True
      then have "e = 2 * e' + 1"
        using split by (simp add: odd_iff_mod_2_eq_one)
      then have "nat e = nat (2 * e' + 1)" by simp
      also have "\<dots> = 2 * nat e' + 1"
        using e'1 by (simp add: nat_add_distrib nat_mult_distrib)
      finally have ne: "nat e = 2 * nat e' + 1" .
      have "y2 = b * y mod m" using True odd by (simp add: y2_def)
      then have "((b * b) ^ nat e' * y2) mod m = ((b * b) ^ nat e' * (b * y)) mod m"
        by (simp add: mod_mult_right_eq)
      also have "(b * b) ^ nat e' * (b * y) = b ^ nat e * y"
        by (simp add: ne power_mult power2_eq_square[symmetric])
      finally show ?thesis .
    next
      case False
      then have "e = 2 * e'"
        using split by simp
      then have "nat e = nat (2 * e')" by simp
      also have "\<dots> = 2 * nat e'"
        using e'1 by (simp add: nat_mult_distrib)
      finally have ne: "nat e = 2 * nat e'" .
      have "y2 = y" using False odd by (simp add: y2_def)
      then show ?thesis
        by (simp add: ne power_mult power2_eq_square[symmetric])
    qed
    then show ?thesis
      using IH unfold pw by simp
  qed
qed

lemma modPow_correct:
  "1 \<le> k \<Longrightarrow> k < 2 ^ 31 \<Longrightarrow> modPow b (int k) m = b ^ k mod m"
proof -
  assume "1 \<le> k" and "k < 2 ^ 31"
  then have "1 \<le> int k" and "int k < 2 ^ 31"
    by simp_all
  from modPow_loop_correct [OF this, where y = 1 and b = b and m = m] show ?thesis
    unfolding modPow_def by (simp only: nat_int mult.right_neutral)
qed

lemma roll_arith:
  fixes B M h S t a0 Bk S' :: nat
  assumes h: "h = S mod M" and eq: "B * S + t = a0 * Bk + S'" and M: "0 < M"
  shows "(B * h + t + (M - Bk mod M) * a0) mod M = S' mod M"
proof -
  define P where "P = Bk mod M"
  show ?thesis
  proof -
    from M have PM: "P \<le> M" by (simp add: P_def less_imp_le)
    have eqi: "int B * int S + int t = int a0 * int Bk + int S'"
      using eq by (metis of_nat_add of_nat_mult)
    have d1: "int M dvd int h - int S"
      unfolding h by (metis mod_eq_dvd_iff mod_mod_trivial of_nat_mod)
    have d2: "int M dvd int Bk - int P"
      unfolding P_def by (metis mod_eq_dvd_iff mod_mod_trivial of_nat_mod)
    have sub: "int ((M - P) * a0) = (int M - int P) * int a0"
      using PM by (simp add: of_nat_diff)
    have "int (B * h + t + (M - P) * a0) = int B * int h + int t + (int M - int P) * int a0"
      unfolding of_nat_add sub by simp
    then have "int (B * h + t + (M - P) * a0) - int S'
          = int B * (int h - int S) + int M * int a0 + int a0 * (int Bk - int P)"
      using eqi by (simp add: algebra_simps)
    then have "int M dvd int (B * h + t + (M - P) * a0) - int S'"
      using d1 d2 by simp
    then have "int (B * h + t + (M - P) * a0) mod int M = int S' mod int M"
      by (simp add: mod_eq_dvd_iff)
    then show ?thesis
      unfolding P_def by (metis of_nat_mod of_nat_eq_iff)
  qed
qed

lemma rolling_snoc: "rolling k (hs @ [t]) = nextHash (rolling k hs) t"
  by (simp add: rolling_def)

lemma length_lastk: "length (lastk k hs) = k"
  by (simp add: lastk_def)

lemma lastk_snoc:
  assumes "1 \<le> k"
  shows "lastk k (hs @ [t]) = tl (lastk k hs) @ [t]"
proof -
  have "drop (Suc (length hs)) ((replicate k 0 @ hs) @ [t])
        = drop (Suc (length hs)) (replicate k 0 @ hs) @ [t]"
    using assms by simp
  also have "drop (Suc (length hs)) (replicate k 0 @ hs) = tl (drop (length hs) (replicate k 0 @ hs))"
    by (simp only: drop_Suc tl_drop)
  finally show ?thesis
    by (simp add: lastk_def)
qed

lemma lastk_take:
  assumes "k \<le> n" and "n \<le> length hs"
  shows "lastk k (take n hs) = take k (drop (n - k) hs)"
proof -
  have "lastk k (take n hs) = drop n (replicate k 0 @ take n hs)"
    using assms by (simp add: lastk_def min_def)
  also have "\<dots> = drop (n - k) (take n hs)"
    using assms by simp
  also have "\<dots> = take k (drop (n - k) hs)"
    using assms by (simp add: drop_take)
  finally show ?thesis .
qed

lemma mod_slot_neq:
  fixes a b k :: nat
  assumes "a < b" and "b < a + k"
  shows "b mod k \<noteq> a mod k"
proof
  assume "b mod k = a mod k"
  then have "k dvd b - a"
    using assms(1) by (metis mod_eq_dvd_iff_nat less_imp_le)
  moreover have "0 < b - a" and "b - a < k"
    using assms by simp_all
  ultimately show False
    by (meson dvd_imp_le not_less)
qed

lemma polyval_replicate_0: "polyval (replicate k 0) = 0"
  by (induction k) simp_all

lemma RH_inv_init:
  assumes "1 \<le> k" and "k < 2 ^ 31"
  shows "RH_inv k [] (RollingHash_new k)"
  using assms
  by (simp add: RH_inv_def RollingHash_new_def modPow_correct lastk_def polyval_replicate_0)

lemma RH_inv_step:
  assumes k: "1 \<le> k" and inv: "RH_inv k hs rh"
  shows "RH_inv k (hs @ [t]) (nextHash rh t)"
proof -
  let ?n = "length hs"
  obtain a rest where W: "lastk k hs = a # rest"
    using k length_lastk [of k hs] by (cases "lastk k hs") auto
  have lr: "length rest = k - 1"
    using length_lastk [of k hs] W by simp
  have W': "lastk k (hs @ [t]) = rest @ [t]"
    using lastk_snoc [OF k] W by simp
  have kpos: "0 < k" using k by simp
  have mem0: "memory rh ! rh_i rh = a"
  proof -
    have "memory rh ! ((?n + 0) mod k) = lastk k hs ! 0"
      using inv kpos unfolding RH_inv_def by blast
    then show ?thesis
      using inv W by (simp add: RH_inv_def)
  qed
  have poly: "RollingHash_base * polyval (a # rest) + t
              = a * RollingHash_base ^ k + polyval (rest @ [t])"
  proof -
    have "k = Suc (length rest)" using lr k by simp
    then show ?thesis
      by (simp add: polyval_snoc algebra_simps)
  qed
  have Mpos: "0 < RollingHash_mod"
    by (simp add: RollingHash_mod_def)
  have hash': "nextHash_sum rh t mod RollingHash_mod = polyval (rest @ [t]) mod RollingHash_mod"
  proof -
    have h: "rh_hash rh = polyval (a # rest) mod RollingHash_mod"
      using inv W by (simp add: RH_inv_def)
    have mb: "maxBase rh = RollingHash_mod - RollingHash_base ^ k mod RollingHash_mod"
      using inv by (simp add: RH_inv_def)
    have "nextHash_sum rh t = RollingHash_base * rh_hash rh + t
            + (RollingHash_mod - RollingHash_base ^ k mod RollingHash_mod) * a"
      by (simp add: nextHash_sum_def mem0 mb)
    then show ?thesis
      using roll_arith [OF h poly Mpos] by simp
  qed
  have len: "length (memory rh) = k" and ri: "rh_i rh = ?n mod k"
    using inv by (simp_all add: RH_inv_def)
  have mem': "(memory rh)[rh_i rh := t] ! ((Suc ?n + j) mod k) = (rest @ [t]) ! j" if j: "j < k" for j
  proof (cases "j = k - 1")
    case True
    then have "(Suc ?n + j) mod k = ?n mod k"
      using k by simp
    then show ?thesis
      using True lr len ri kpos by (simp add: nth_append)
  next
    case False
    with j have j1: "Suc j < k" by simp
    then have j2: "j < k - Suc 0" by simp
    have ne: "(Suc ?n + j) mod k \<noteq> ?n mod k"
      by (rule mod_slot_neq) (use j1 in simp_all)
    have "memory rh ! ((?n + Suc j) mod k) = lastk k hs ! Suc j"
      using inv j1 unfolding RH_inv_def by blast
    then have "memory rh ! ((Suc ?n + j) mod k) = rest ! j"
      using W by simp
    then show ?thesis
      using ne ri j2 lr by (simp add: nth_append)
  qed
  show ?thesis
    unfolding RH_inv_def
  proof (intro conjI)
    show "rh_k (nextHash rh t) = k"
      using inv by (simp add: nextHash_def RH_inv_def)
    show "length (memory (nextHash rh t)) = k"
      using len by (simp add: nextHash_def)
    show "rh_i (nextHash rh t) = length (hs @ [t]) mod k"
      using inv by (simp add: nextHash_def RH_inv_def mod_Suc_eq)
    show "maxBase (nextHash rh t) = RollingHash_mod - RollingHash_base ^ k mod RollingHash_mod"
      using inv by (simp add: nextHash_def RH_inv_def)
    show "\<forall>j<k. memory (nextHash rh t) ! ((length (hs @ [t]) + j) mod k) = lastk k (hs @ [t]) ! j"
      using mem' by (simp add: nextHash_def W')
    show "rh_hash (nextHash rh t) = polyval (lastk k (hs @ [t])) mod RollingHash_mod"
      using hash' by (simp add: nextHash_def W')
  qed
qed

lemma RH_inv_rolling:
  assumes "1 \<le> k" and "k < 2 ^ 31"
  shows "RH_inv k hs (rolling k hs)"
proof (induction hs rule: rev_induct)
  case Nil
  then show ?case
    using RH_inv_init [OF assms] by (simp add: rolling_def)
next
  case (snoc t hs)
  then show ?case
    using RH_inv_step [OF assms(1)] by (simp add: rolling_snoc)
qed

lemma rolling_hash_reference:
  assumes "1 \<le> k" and "k < 2 ^ 31" and "k \<le> n" and "n \<le> length hs"
  shows "rh_hash (rolling k (take n hs)) = reference_hash (take k (drop (n - k) hs))"
  using RH_inv_rolling [OF assms(1,2), of "take n hs"] lastk_take [OF assms(3,4)]
  by (simp add: RH_inv_def reference_hash_polyval)

lemma slot_lt: "0 < w \<Longrightarrow> slot w j < w"
  by (simp add: slot_def)

lemma slot_Suc: "(slot w j + 1) mod w = slot w (Suc j)"
  by (simp add: slot_def mod_Suc_eq)

lemma slot_Suc': "Suc (slot w j) mod w = slot w (Suc j)"
  using slot_Suc [of w j] by simp

lemma slot_neq: "j < j' \<Longrightarrow> j' < j + w \<Longrightarrow> slot w j' \<noteq> slot w j"
  unfolding slot_def by (rule mod_slot_neq) simp_all

lemma slot_wrap: "slot w (j + w) = slot w j"
proof -
  have "j + w + 1 = (j + 1) + w" by simp
  then show ?thesis
    unfolding slot_def by (simp only: mod_add_self2)
qed

lemma slot_eq_full:
  assumes "j \<le> j'" and "j' \<le> j + w" and "slot w j' = slot w j"
  shows "j' = j \<or> j' = j + w"
proof (rule ccontr)
  assume "\<not> (j' = j \<or> j' = j + w)"
  with assms(1,2) have "j < j'" and "j' < j + w" by simp_all
  from slot_neq [OF this] assms(3) show False by simp
qed

lemma js_rem_offset:
  assumes "j \<le> f" and "f < j + w"
  shows "js_rem (int (slot w j) - int (slot w f) - int w) (int w) = int j - int f"
proof -
  have w: "0 < w" using assms by simp
  define a where "a = int (slot w j)"
  define b where "b = int (slot w f)"
  have a: "0 \<le> a" "a < int w" and b: "0 \<le> b" "b < int w"
    using slot_lt [OF w] by (simp_all add: a_def b_def)
  have neg: "a - b - int w < 0" using a b by simp
  have "(int w + b - a) mod int w = (b - a) mod int w"
    by (metis add.commute add_diff_eq mod_add_self1)
  also have "\<dots> = ((int f + 1) mod int w - (int j + 1) mod int w) mod int w"
    by (simp add: a_def b_def slot_def zmod_int add.commute)
  also have "\<dots> = ((int f + 1) - (int j + 1)) mod int w"
    by (simp add: mod_diff_eq)
  also have "\<dots> = int f - int j"
    using assms by simp
  finally have m: "(int w + b - a) mod int w = int f - int j" .
  have "js_rem (a - b - int w) (int w) = - ((int w + b - a) mod int w)"
    using neg w by (simp add: js_rem_def abs_if algebra_simps)
  then show ?thesis
    using m by (simp add: a_def b_def)
qed

lemma rescan_stop: "rescan w bp buf bp m = m"
  by (simp add: rescan.simps)

lemma rescan_result:
  assumes w: "0 < w" and lo: "lo + w = f + 1"
    and buf: "\<forall>j. lo \<le> j \<and> j \<le> f \<longrightarrow> buf ! slot w j = g j"
  shows "lo \<le> c \<Longrightarrow> c \<le> f \<Longrightarrow> lo \<le> m \<Longrightarrow> m \<le> f \<Longrightarrow>
         \<exists>r. lo \<le> r \<and> r \<le> f \<and> rescan w (slot w f) buf (slot w c) (slot w m) = slot w r \<and>
             g r \<le> g m \<and> (\<forall>j. c \<le> j \<and> j < f \<longrightarrow> g r \<le> g j)"
proof (induction "f - c" arbitrary: c m)
  case 0
  then have "c = f" by simp
  then show ?case
    using 0 by (auto simp: rescan_stop)
next
  case (Suc d)
  then have cf: "c < f" by simp
  have ne: "slot w c \<noteq> slot w f"
    using slot_neq [of c f w] cf Suc.prems lo by simp
  define m' where "m' = (if g c \<le> g m then c else m)"
  have m'r: "lo \<le> m'" "m' \<le> f"
    using Suc.prems by (simp_all add: m'_def)
  have bc: "buf ! slot w c = g c" and bm: "buf ! slot w m = g m"
    using buf Suc.prems by simp_all
  have unfold: "rescan w (slot w f) buf (slot w c) (slot w m)
                = rescan w (slot w f) buf (slot w (Suc c)) (slot w m')"
    using ne slot_lt [OF w]
    by (subst rescan.simps) (simp add: slot_Suc' bc bm m'_def)
  have "d = f - Suc c" using Suc.hyps by simp
  from Suc.hyps(1) [OF this _ _ m'r]
  obtain r where r: "lo \<le> r" "r \<le> f"
      "rescan w (slot w f) buf (slot w (Suc c)) (slot w m') = slot w r"
      "g r \<le> g m'" "\<forall>j. Suc c \<le> j \<and> j < f \<longrightarrow> g r \<le> g j"
    using cf Suc.prems by auto
  have gm: "g r \<le> g m" and gc: "g r \<le> g c"
    using r(4) by (simp_all add: m'_def split: if_splits)
  have "\<forall>j. c \<le> j \<and> j < f \<longrightarrow> g r \<le> g j"
  proof (intro allI impI)
    fix j assume "c \<le> j \<and> j < f"
    then consider "j = c" | "Suc c \<le> j \<and> j < f" by linarith
    then show "g r \<le> g j"
      using gc r(5) by cases simp_all
  qed
  then show ?case
    using r gm unfold by auto
qed

lemma new_fingerprint_fp_at:
  assumes "in_window w f j" and "buf ! slot w j = g j"
  shows "new_fingerprint k w d tokens buf (int f) (slot w f) (slot w j) = fp_at k d tokens g j"
proof -
  have "js_rem (int (slot w j) - int (slot w f) - int w) (int w) = int j - int f"
    using assms(1) by (intro js_rem_offset) (simp_all add: in_window_def)
  then show ?thesis
    using assms(2) by (simp add: new_fingerprint_def fp_at_def Let_def)
qed

lemma in_window_Suc:
  "in_window w (Suc f) j \<longleftrightarrow> j = Suc f \<and> 0 < w \<or> in_window w f j \<and> Suc f < j + w"
  by (auto simp: in_window_def)

lemma W_inv_next:
  assumes kn: "k \<le> Suc n"
    and old: "W_inv k w d tokens hs n s"
    and fp: "filePos s' = int (Suc n) - int k"
    and hs': "hasher s' = rolling k (take (Suc n) hs)"
    and len: "length (buffer s') = w"
    and bp: "bufferPos s' = slot w (Suc n - k)"
    and content: "\<forall>j. in_window w (Suc n - k) j \<longrightarrow> buffer s' ! slot w j = kgram_hash k hs j"
    and wm: "window_min w (kgram_hash k hs) (Suc n - k) jm'"
    and mp: "minPos s' = slot w jm'"
    and emitted: "fp_at k d tokens (kgram_hash k hs) jm' \<in> set (fps s')"
    and sub1: "set (fps s') \<subseteq> insert (fp_at k d tokens (kgram_hash k hs) jm') (set (fps s))"
    and sub2: "set (fps s) \<subseteq> set (fps s')"
  shows "W_inv k w d tokens hs (Suc n) s'"
proof -
  let ?g = "kgram_hash k hs"
  let ?F = "fp_at k d tokens ?g"
  have jm'le: "jm' \<le> Suc n - k"
    using wm by (simp add: window_min_def in_window_def)
  have all: "\<forall>fp\<in>set (fps s'). \<exists>j\<le>Suc n - k. fp = ?F j"
  proof
    fix fp assume "fp \<in> set (fps s')"
    with sub1 consider "fp = ?F jm'" | "fp \<in> set (fps s)" by auto
    then show "\<exists>j\<le>Suc n - k. fp = ?F j"
    proof cases
      case 1
      then show ?thesis using jm'le by blast
    next
      case 2
      show ?thesis
      proof (cases "n < k")
        case True
        with old 2 show ?thesis by (simp add: W_inv_def)
      next
        case False
        with old 2 obtain j where "j \<le> n - k" "fp = ?F j"
          unfolding W_inv_def by auto
        then show ?thesis
          using False by (intro exI [of _ j]) simp
      qed
    qed
  qed
  have cum: "\<forall>f0\<le>Suc n - k. \<exists>j. window_min w ?g f0 j \<and> ?F j \<in> set (fps s')"
  proof (intro allI impI)
    fix f0 assume f0: "f0 \<le> Suc n - k"
    show "\<exists>j. window_min w ?g f0 j \<and> ?F j \<in> set (fps s')"
    proof (cases "f0 = Suc n - k")
      case True
      then show ?thesis using wm emitted by blast
    next
      case False
      with f0 have lt: "f0 < Suc n - k" by simp
      then have nk: "\<not> n < k" and "f0 \<le> n - k" by simp_all
      with old obtain j where "window_min w ?g f0 j" "?F j \<in> set (fps s)"
        unfolding W_inv_def by auto
      then show ?thesis using sub2 by blast
    qed
  qed
  have "\<not> Suc n < k" using kn by simp
  then show ?thesis
    unfolding W_inv_def
    using fp hs' len bp content wm mp emitted all cum by auto
qed

lemma rolling_take_Suc:
  "n < length hs \<Longrightarrow> rolling k (take (Suc n) hs) = nextHash (rolling k (take n hs)) (hs ! n)"
  by (simp add: take_Suc_conv_app_nth rolling_snoc)

lemma rh_hash_nextHash_lt: "rh_hash (nextHash rh t) < RollingHash_mod"
  by (simp add: nextHash_def RollingHash_mod_def)

lemma rh_hash_nextHash_le_MAX: "rh_hash (nextHash rh t) \<le> MAX_SAFE_INTEGER"
  using rh_hash_nextHash_lt [of rh t]
  by (simp add: RollingHash_mod_def MAX_SAFE_INTEGER_def)

lemma winnow_step_warmup:
  "filePos s + 1 < 0 \<Longrightarrow>
   winnow_step k w d tokens s ht =
     s\<lparr>hasher := nextHash (hasher s) (fst ht), filePos := filePos s + 1\<rparr>"
  by (simp add: winnow_step_def Let_def)

lemma winnow_step_rescan:
  "\<not> filePos s + 1 < 0 \<Longrightarrow> minPos s = (bufferPos s + 1) mod w \<Longrightarrow>
   bp = (bufferPos s + 1) mod w \<Longrightarrow> h = nextHash (hasher s) (fst ht) \<Longrightarrow>
   buf = (buffer s)[bp := rh_hash h] \<Longrightarrow>
   mp = rescan w bp buf ((bp + 1) mod w) (minPos s) \<Longrightarrow>
   winnow_step k w d tokens s ht =
     s\<lparr>hasher := h, filePos := filePos s + 1, bufferPos := bp, minPos := mp, buffer := buf,
       fps := fps s @ [new_fingerprint k w d tokens buf (filePos s + 1) bp mp]\<rparr>"
  by (simp add: winnow_step_def Let_def)

lemma winnow_step_newmin:
  "\<not> filePos s + 1 < 0 \<Longrightarrow> minPos s \<noteq> (bufferPos s + 1) mod w \<Longrightarrow>
   bp = (bufferPos s + 1) mod w \<Longrightarrow> h = nextHash (hasher s) (fst ht) \<Longrightarrow>
   buf = (buffer s)[bp := rh_hash h] \<Longrightarrow>
   buf ! bp \<le> buf ! minPos s \<Longrightarrow>
   winnow_step k w d tokens s ht =
     s\<lparr>hasher := h, filePos := filePos s + 1, bufferPos := bp, minPos := bp, buffer := buf,
       fps := fps s @ [new_fingerprint k w d tokens buf (filePos s + 1) bp bp]\<rparr>"
  by (simp add: winnow_step_def Let_def)

lemma winnow_step_keep:
  "\<not> filePos s + 1 < 0 \<Longrightarrow> minPos s \<noteq> (bufferPos s + 1) mod w \<Longrightarrow>
   bp = (bufferPos s + 1) mod w \<Longrightarrow> h = nextHash (hasher s) (fst ht) \<Longrightarrow>
   buf = (buffer s)[bp := rh_hash h] \<Longrightarrow>
   \<not> buf ! bp \<le> buf ! minPos s \<Longrightarrow>
   winnow_step k w d tokens s ht =
     s\<lparr>hasher := h, filePos := filePos s + 1, bufferPos := bp, buffer := buf\<rparr>"
  by (simp add: winnow_step_def Let_def)

lemma W_inv_step:
  assumes k: "1 \<le> k" and w: "0 < w" and n: "n < length hs"
    and ht: "fst ht = hs ! n"
    and old: "W_inv k w d tokens hs n s"
  shows "W_inv k w d tokens hs (Suc n) (winnow_step k w d tokens s ht)"
proof -
  let ?g = "kgram_hash k hs"
  let ?F = "fp_at k d tokens ?g"
  let ?s' = "winnow_step k w d tokens s ht"
  define h where "h = nextHash (hasher s) (fst ht)"
  have fpos: "filePos s = int n - int k" and hash: "hasher s = rolling k (take n hs)"
    and len: "length (buffer s) = w"
    using old by (simp_all add: W_inv_def)
  have h_roll: "h = rolling k (take (Suc n) hs)"
    using n by (simp add: h_def hash ht rolling_take_Suc)
  show ?thesis
  proof (cases "Suc n < k")
    case True
    then have neg: "filePos s + 1 < 0" using fpos by simp
    have s': "?s' = s\<lparr>hasher := h, filePos := filePos s + 1\<rparr>"
      using winnow_step_warmup [OF neg] by (simp add: h_def)
    from True have "n < k" by simp
    with old True show ?thesis
      unfolding s' W_inv_def using h_roll by simp
  next
    case False
    then have kn: "k \<le> Suc n" by simp
    define f' where "f' = Suc n - k"
    have nonneg: "\<not> filePos s + 1 < 0" and fpos': "filePos s + 1 = int f'"
      using fpos kn by (simp_all add: f'_def)
    have gf': "rh_hash h = ?g f'"
      using kn by (simp add: kgram_hash_def h_roll f'_def)
    define bp where "bp = (bufferPos s + 1) mod w"
    define buf where "buf = (buffer s)[bp := rh_hash h]"
    have bp_slot: "bp = slot w f'"
    proof (cases "n < k")
      case True
      then have "f' = 0" using kn by (simp add: f'_def)
      moreover have "bufferPos s = 0" using old True by (simp add: W_inv_def)
      ultimately show ?thesis by (simp add: bp_def slot_def)
    next
      case False
      then have "bufferPos s = slot w (n - k)" using old by (simp add: W_inv_def)
      moreover have "f' = Suc (n - k)" using False by (simp add: f'_def)
      ultimately show ?thesis by (simp add: bp_def slot_Suc')
    qed
    have bp_lt: "bp < w" using w by (simp add: bp_def)
    have lenb: "length buf = w" by (simp add: buf_def len)
    have buf_new: "buf ! slot w f' = ?g f'"
      using bp_lt len by (simp add: buf_def bp_slot [symmetric] gf')
    have content: "\<forall>j. in_window w f' j \<longrightarrow> buf ! slot w j = ?g j"
    proof (intro allI impI)
      fix j assume iw: "in_window w f' j"
      show "buf ! slot w j = ?g j"
      proof (cases "j = f'")
        case True
        then show ?thesis using buf_new by simp
      next
        case False
        with iw have jlt: "j < f'" and fj: "f' < j + w" by (simp_all add: in_window_def)
        then have nk: "\<not> n < k" by (simp add: f'_def)
        have fS: "f' = Suc (n - k)" using nk by (simp add: f'_def)
        have "in_window w (n - k) j"
          using jlt fj by (simp add: in_window_def fS)
        then have "buffer s ! slot w j = ?g j"
          using old nk unfolding W_inv_def by simp
        moreover have "slot w j \<noteq> bp"
          unfolding bp_slot using slot_neq [OF jlt fj] by simp
        ultimately show ?thesis by (simp add: buf_def)
      qed
    qed
    have self_window: "in_window w f' f'"
      using w by (simp add: in_window_def)
    show ?thesis
    proof (cases "minPos s = bp")
      case True
      \<comment> \<open>the slot of the tracked minimum is overwritten: the window is scanned\<close>
      have "\<exists>lo. lo + w = f' + 1"
      proof (cases "n < k")
        case True
        then have f0: "f' = 0" using kn by (simp add: f'_def)
        have "minPos s = 0" using old True by (simp add: W_inv_def)
        with \<open>minPos s = bp\<close> have "slot w 0 = 0" by (simp add: bp_slot f0)
        then have "w = 1"
          using w by (cases "w = 1") (simp_all add: slot_def)
        then show ?thesis using f0 by simp
      next
        case False
        then obtain jm where jm: "window_min w ?g (n - k) jm" "minPos s = slot w jm"
          using old unfolding W_inv_def by auto
        have fS: "f' = Suc (n - k)" using False by (simp add: f'_def)
        have "jm \<le> f'" "f' \<le> jm + w"
          using jm(1) by (simp_all add: window_min_def in_window_def fS)
        moreover have "slot w f' = slot w jm"
          using jm(2) True bp_slot by simp
        ultimately have "f' = jm \<or> f' = jm + w"
          by (rule slot_eq_full)
        moreover have "jm \<noteq> f'"
          using jm(1) by (simp add: window_min_def in_window_def fS)
        ultimately have "f' = jm + w" by simp
        then show ?thesis by (intro exI [of _ "Suc jm"]) simp
      qed
      then obtain lo where lo: "lo + w = f' + 1" ..
      have range: "in_window w f' j \<longleftrightarrow> lo \<le> j \<and> j \<le> f'" for j
        using lo by (auto simp: in_window_def)
      have start_i: "(bp + 1) mod w = slot w lo"
      proof -
        have "(bp + 1) mod w = slot w (Suc f')"
          by (simp add: bp_slot slot_Suc')
        also have "Suc f' = lo + w" using lo by simp
        finally show ?thesis by (simp add: slot_wrap)
      qed
      have "\<exists>r. lo \<le> r \<and> r \<le> f' \<and> rescan w (slot w f') buf (slot w lo) (slot w f') = slot w r \<and>
             ?g r \<le> ?g f' \<and> (\<forall>j. lo \<le> j \<and> j < f' \<longrightarrow> ?g r \<le> ?g j)"
        by (rule rescan_result [OF w lo]) (use content range lo w in simp_all)
      then obtain r where r: "lo \<le> r" "r \<le> f'"
        "rescan w (slot w f') buf (slot w lo) (slot w f') = slot w r"
        "?g r \<le> ?g f'" "\<forall>j. lo \<le> j \<and> j < f' \<longrightarrow> ?g r \<le> ?g j"
        by blast
      have rw: "in_window w f' r" using r range by simp
      have wm: "window_min w ?g f' r"
        unfolding window_min_def
      proof (intro conjI allI impI)
        show "in_window w f' r" by (rule rw)
        fix j assume "in_window w f' j"
        then have "lo \<le> j" "j \<le> f'" using range by simp_all
        then show "?g r \<le> ?g j"
          using r(4,5) by (cases "j = f'") simp_all
      qed
      have start_i': "Suc bp mod w = slot w lo"
        using start_i by simp
      have mp: "rescan w bp buf (Suc bp mod w) (minPos s) = slot w r"
        using r(3) by (simp add: start_i' True bp_slot [symmetric])
      have nf: "new_fingerprint k w d tokens buf (int f') bp (slot w r) = ?F r"
        unfolding bp_slot by (rule new_fingerprint_fp_at [OF rw]) (use content rw in simp)
      have s': "?s' = s\<lparr>hasher := h, filePos := int f', bufferPos := bp, minPos := slot w r,
                  buffer := buf, fps := fps s @ [?F r]\<rparr>"
        using winnow_step_rescan [OF nonneg True [unfolded bp_def] bp_def h_def buf_def refl]
        by (simp add: mp nf fpos')
      show ?thesis
        by (rule W_inv_next [OF kn old, where jm' = r])
          (use wm content h_roll lenb in \<open>auto simp: s' f'_def [symmetric] bp_slot fpos' [symmetric] fpos\<close>)
    next
      case False
      note mp_ne = False
      show ?thesis
      proof (cases "buf ! bp \<le> buf ! minPos s")
        case True
        \<comment> \<open>the entering hash is at most the tracked minimum\<close>
        have wm: "window_min w ?g f' f'"
          unfolding window_min_def
        proof (intro conjI allI impI)
          show "in_window w f' f'" by (rule self_window)
          fix j assume iw: "in_window w f' j"
          show "?g f' \<le> ?g j"
          proof (cases "j = f'")
            case True
            then show ?thesis by simp
          next
            case False
            with iw have jlt: "j < f'" and fj: "f' < j + w" by (simp_all add: in_window_def)
            then have nk: "\<not> n < k" by (simp add: f'_def)
            then obtain jm where jm: "window_min w ?g (n - k) jm" "minPos s = slot w jm"
              using old unfolding W_inv_def by auto
            have fS: "f' = Suc (n - k)" using nk by (simp add: f'_def)
            have "in_window w (n - k) j"
              using jlt fj by (simp add: in_window_def fS)
            then have "?g jm \<le> ?g j" using jm(1) by (simp add: window_min_def)
            moreover have "buffer s ! slot w jm = ?g jm"
              using old nk jm(1) unfolding W_inv_def window_min_def by simp
            then have "buf ! minPos s = ?g jm"
              using mp_ne jm(2) by (simp add: buf_def)
            moreover have "buf ! bp = ?g f'"
              using buf_new by (simp add: bp_slot)
            ultimately show ?thesis using True by simp
          qed
        qed
        have nf: "new_fingerprint k w d tokens buf (int f') bp bp = ?F f'"
          unfolding bp_slot by (rule new_fingerprint_fp_at [OF self_window]) (rule buf_new)
        have s': "?s' = s\<lparr>hasher := h, filePos := int f', bufferPos := bp, minPos := slot w f',
                  buffer := buf, fps := fps s @ [?F f']\<rparr>"
          using winnow_step_newmin [OF nonneg mp_ne [unfolded bp_def] bp_def h_def buf_def True]
          by (simp add: nf fpos' bp_slot [symmetric])
        show ?thesis
          by (rule W_inv_next [OF kn old, where jm' = f'])
            (use wm content h_roll lenb in \<open>auto simp: s' f'_def [symmetric] bp_slot fpos' [symmetric] fpos\<close>)
      next
        case False
        \<comment> \<open>the tracked minimum stays\<close>
        have nk: "\<not> n < k"
        proof
          assume lt: "n < k"
          then have "minPos s = 0" "buffer s = replicate w MAX_SAFE_INTEGER"
            using old by (simp_all add: W_inv_def)
          then have "buf ! minPos s = MAX_SAFE_INTEGER"
            using mp_ne w by (simp add: buf_def)
          moreover have "buf ! bp \<le> MAX_SAFE_INTEGER"
            using bp_lt len rh_hash_nextHash_le_MAX [of "hasher s" "fst ht"]
            by (simp add: buf_def h_def)
          ultimately show False using False by simp
        qed
        then obtain jm where jm: "window_min w ?g (n - k) jm" "minPos s = slot w jm"
            "?F jm \<in> set (fps s)"
          using old unfolding W_inv_def by auto
        have fS: "f' = Suc (n - k)" using nk by (simp add: f'_def)
        have jm_old: "jm \<le> n - k" "n - k < jm + w"
          using jm(1) by (simp_all add: window_min_def in_window_def)
        have "f' \<noteq> jm + w"
        proof
          assume "f' = jm + w"
          then have "slot w f' = slot w jm" by (simp add: slot_wrap)
          with jm(2) mp_ne bp_slot show False by simp
        qed
        then have jw: "in_window w f' jm"
          using jm_old by (simp add: in_window_def fS)
        have "buffer s ! slot w jm = ?g jm"
          using old nk jm(1) unfolding W_inv_def window_min_def by simp
        then have bm: "buf ! minPos s = ?g jm"
          using mp_ne jm(2) by (simp add: buf_def)
        have bb: "buf ! bp = ?g f'"
          using buf_new by (simp add: bp_slot)
        have wm: "window_min w ?g f' jm"
          unfolding window_min_def
        proof (intro conjI allI impI)
          show "in_window w f' jm" by (rule jw)
          fix j assume iw: "in_window w f' j"
          show "?g jm \<le> ?g j"
          proof (cases "j = f'")
            case True
            then show ?thesis using False bm bb by simp
          next
            case False
            with iw have "in_window w (n - k) j"
              by (simp add: in_window_def fS)
            then show ?thesis using jm(1) by (simp add: window_min_def)
          qed
        qed
        have s': "?s' = s\<lparr>hasher := h, filePos := int f', bufferPos := bp, buffer := buf\<rparr>"
          using winnow_step_keep [OF nonneg mp_ne [unfolded bp_def] bp_def h_def buf_def False]
          by (simp add: fpos')
        show ?thesis
          by (rule W_inv_next [OF kn old, where jm' = jm])
            (use wm content h_roll lenb jm in \<open>auto simp: s' f'_def [symmetric] bp_slot fpos' [symmetric] fpos\<close>)
      qed
    qed
  qed
qed

lemma winnow_run_snoc:
  "winnow_run k w d tokens (hts @ [ht]) = winnow_step k w d tokens (winnow_run k w d tokens hts) ht"
  by (simp add: winnow_run_def)

lemma W_inv_init:
  assumes "1 \<le> k"
  shows "W_inv k w d tokens hs 0 (winnow_init k w)"
  using assms by (simp add: W_inv_def winnow_init_def rolling_def)

lemma W_inv_run:
  assumes k: "1 \<le> k" and w: "0 < w"
  shows "n \<le> length hts \<Longrightarrow>
         W_inv k w d tokens (map fst hts) n (winnow_run k w d tokens (take n hts))"
proof (induction n)
  case 0
  then show ?case
    using W_inv_init [OF k] by (simp add: winnow_run_def)
next
  case (Suc n)
  then have n: "n < length hts" by simp
  have "W_inv k w d tokens (map fst hts) (Suc n)
          (winnow_step k w d tokens (winnow_run k w d tokens (take n hts)) (hts ! n))"
    by (rule W_inv_step [OF k w]) (use n Suc in simp_all)
  then show ?case
    using n by (simp add: take_Suc_conv_app_nth winnow_run_snoc)
qed

lemma W_inv_fingerprints:
  assumes "1 \<le> k" and "0 < w"
  shows "W_inv k w d tokens (map hashToken tokens) (length tokens)
           (winnow_run k w d tokens (hashTokens tokens))"
proof -
  have "map fst (hashTokens tokens) = map hashToken tokens"
    by (simp add: hashTokens_def comp_def)
  moreover have "length (hashTokens tokens) = length tokens"
    by (simp add: hashTokens_def)
  ultimately show ?thesis
    using W_inv_run [OF assms, of "length tokens" "hashTokens tokens" d tokens]
    by simp
qed

lemma fingerprints_short:
  assumes "1 \<le> k" and "0 < w" and "length tokens < k"
  shows "fingerprints k w d tokens = []"
  using W_inv_fingerprints [OF assms(1,2), of d tokens] assms(3)
  by (simp add: W_inv_def fingerprints_def)

lemma fingerprints_shape:
  assumes "1 \<le> k" and "0 < w" and "fp \<in> set (fingerprints k w d tokens)"
  shows "\<exists>j. j + k \<le> length tokens \<and>
             fp = fp_at k d tokens (kgram_hash k (map hashToken tokens)) j"
proof (cases "length tokens < k")
  case True
  with fingerprints_short [OF assms(1,2) True] assms(3) show ?thesis by simp
next
  case False
  with W_inv_fingerprints [OF assms(1,2), of d tokens] assms(3)
  obtain j where "j \<le> length tokens - k"
      "fp = fp_at k d tokens (kgram_hash k (map hashToken tokens)) j"
    unfolding W_inv_def fingerprints_def by auto
  then show ?thesis
    using False by (intro exI [of _ j]) simp
qed

lemma fingerprints_window_min:
  assumes "1 \<le> k" and "0 < w" and "f0 + k \<le> length tokens"
  shows "\<exists>j. window_min w (kgram_hash k (map hashToken tokens)) f0 j \<and>
             fp_at k d tokens (kgram_hash k (map hashToken tokens)) j
               \<in> set (fingerprints k w d tokens)"
proof -
  have "\<not> length tokens < k" and "f0 \<le> length tokens - k"
    using assms(3) by simp_all
  with W_inv_fingerprints [OF assms(1,2), of d tokens] show ?thesis
    unfolding W_inv_def fingerprints_def by auto
qed

lemma fingerprints_nonempty:
  assumes "1 \<le> k" and "0 < w" and "k \<le> length tokens"
  shows "fingerprints k w d tokens \<noteq> []"
  using fingerprints_window_min [OF assms(1,2), of 0 tokens d] assms(3)
  by auto

lemma kgram_hash_reference:
  assumes "1 \<le> k" and "k < 2 ^ 31" and "j + k \<le> length hs"
  shows "kgram_hash k hs j = reference_hash (take k (drop j hs))"
  using rolling_hash_reference [OF assms(1,2), of "j + k" hs] assms(3)
  by (simp add: kgram_hash_def)

lemma kgram_hash_shared:
  assumes "1 \<le> k" and "k < 2 ^ 31" and "x + k \<le> length S"
  shows "kgram_hash k (map hashToken (pa @ S @ qa)) (length pa + x)
         = reference_hash (take k (drop x (map hashToken S)))"
proof -
  have "kgram_hash k (map hashToken (pa @ S @ qa)) (length pa + x)
        = reference_hash (take k (drop (length pa + x) (map hashToken (pa @ S @ qa))))"
    by (rule kgram_hash_reference [OF assms(1,2)]) (use assms(3) in simp)
  also have "take k (drop (length pa + x) (map hashToken (pa @ S @ qa)))
             = take k (drop x (map hashToken S))"
    using assms(3) by (simp add: drop_map take_map)
  finally show ?thesis .
qed

lemma shared_window_min:
  assumes k: "1 \<le> k" "k < 2 ^ 31" and w: "0 < w" and S: "k + w - 1 \<le> length S"
    and wm: "window_min w (kgram_hash k (map hashToken (pa @ S @ qa))) (length pa + w - 1) j"
  shows "\<exists>x<w. j = length pa + x \<and>
           kgram_hash k (map hashToken (pa @ S @ qa)) j
             = reference_hash (take k (drop x (map hashToken S))) \<and>
           (\<forall>y<w. reference_hash (take k (drop x (map hashToken S)))
                   \<le> reference_hash (take k (drop y (map hashToken S))))"
proof -
  let ?g = "kgram_hash k (map hashToken (pa @ S @ qa))"
  let ?c = "\<lambda>x. reference_hash (take k (drop x (map hashToken S)))"
  have eq: "?g (length pa + x) = ?c x" if "x < w" for x
    by (rule kgram_hash_shared [OF k]) (use that S in simp)
  have "j \<le> length pa + w - 1" and "length pa + w - 1 < j + w"
    using wm by (simp_all add: window_min_def in_window_def)
  then have jr: "length pa \<le> j" "j \<le> length pa + w - 1"
    using w by linarith+
  define x where "x = j - length pa"
  have x: "x < w" "j = length pa + x"
    using jr w by (simp_all add: x_def)
  have "?c x \<le> ?c y" if "y < w" for y
  proof -
    have "in_window w (length pa + w - 1) (length pa + y)"
      unfolding in_window_def using that by linarith
    then have "?g j \<le> ?g (length pa + y)"
      using wm by (simp add: window_min_def)
    then show ?thesis
      using eq [OF that] eq [OF x(1)] x(2) by simp
  qed
  then show ?thesis
    using x eq [OF x(1)] by auto
qed

lemma winnowing_guarantee_aux:
  assumes k: "1 \<le> k" "k < 2 ^ 31" and w: "1 \<le> w" and S: "k + w - 1 \<le> length S"
  shows "\<exists>fa\<in>set (fingerprints k w dA (pa @ S @ qa)).
         \<exists>fb\<in>set (fingerprints k w dB (pb @ S @ qb)). hash fa = hash fb"
proof -
  let ?A = "pa @ S @ qa" and ?B = "pb @ S @ qb"
  let ?c = "\<lambda>x. reference_hash (take k (drop x (map hashToken S)))"
  have w0: "0 < w" using w by simp
  have "length pa + w - 1 + k \<le> length ?A"
    using S w by simp
  from fingerprints_window_min [OF k(1) w0 this, of dA]
  obtain ja where ja: "window_min w (kgram_hash k (map hashToken ?A)) (length pa + w - 1) ja"
      "fp_at k dA ?A (kgram_hash k (map hashToken ?A)) ja \<in> set (fingerprints k w dA ?A)"
    by blast
  have "length pb + w - 1 + k \<le> length ?B"
    using S w by simp
  from fingerprints_window_min [OF k(1) w0 this, of dB]
  obtain jb where jb: "window_min w (kgram_hash k (map hashToken ?B)) (length pb + w - 1) jb"
      "fp_at k dB ?B (kgram_hash k (map hashToken ?B)) jb \<in> set (fingerprints k w dB ?B)"
    by blast
  from shared_window_min [OF k w0 S ja(1)]
  obtain xa where xa: "xa < w" "kgram_hash k (map hashToken ?A) ja = ?c xa"
      "\<forall>y<w. ?c xa \<le> ?c y"
    by blast
  from shared_window_min [OF k w0 S jb(1)]
  obtain xb where xb: "xb < w" "kgram_hash k (map hashToken ?B) jb = ?c xb"
      "\<forall>y<w. ?c xb \<le> ?c y"
    by blast
  have "?c xa = ?c xb"
    using xa(1,3) xb(1,3) by (simp add: le_antisym)
  then have "hash (fp_at k dA ?A (kgram_hash k (map hashToken ?A)) ja)
             = hash (fp_at k dB ?B (kgram_hash k (map hashToken ?B)) jb)"
    using xa(2) xb(2) by (simp add: fp_at_def)
  then show ?thesis
    using ja(2) jb(2) by blast
qed

section \<open>Rolling hash equivalence and the winnowing guarantee\<close>

lemmas winnow_eval =
  fingerprints_def winnow_run_def winnow_step_def winnow_init_def hashTokens_def hashToken_def
  TokenHash_base_def TokenHash_mod_def Let_def RollingHash_new_def nextHash_def
  nextHash_sum_def RollingHash_mod_def RollingHash_base_def modPow_def modPow_loop.simps
  rescan.simps new_fingerprint_def js_rem_def MAX_SAFE_INTEGER_def slice_def toInt32_def

lemma RH_bounds:
  assumes k: "1 \<le> k" and hs: "\<forall>t\<in>set hs. t < RollingHash_mod"
  shows "rh_hash (rolling k hs) < RollingHash_mod \<and>
         (\<forall>x\<in>set (memory (rolling k hs)). x < RollingHash_mod) \<and>
         maxBase (rolling k hs) \<le> RollingHash_mod \<and>
         rh_k (rolling k hs) = k \<and> length (memory (rolling k hs)) = k \<and>
         rh_i (rolling k hs) < k"
  using hs
proof (induction hs rule: rev_induct)
  case Nil
  then show ?case
    using k by (simp add: rolling_def RollingHash_new_def RollingHash_mod_def)
next
  case (snoc t hs)
  then have IH: "rh_hash (rolling k hs) < RollingHash_mod"
      "\<forall>x\<in>set (memory (rolling k hs)). x < RollingHash_mod"
      "maxBase (rolling k hs) \<le> RollingHash_mod"
      "rh_k (rolling k hs) = k" "length (memory (rolling k hs)) = k"
      "rh_i (rolling k hs) < k"
    and t: "t < RollingHash_mod"
    by simp_all
  have "set ((memory (rolling k hs))[rh_i (rolling k hs) := t])
          \<subseteq> insert t (set (memory (rolling k hs)))"
    by (rule set_update_subset_insert)
  then have mem: "\<forall>x\<in>set ((memory (rolling k hs))[rh_i (rolling k hs) := t]). x < RollingHash_mod"
    using IH(2) t by auto
  show ?case
    unfolding rolling_snoc
    using IH mem k by (simp add: nextHash_def RollingHash_mod_def)
qed

lemma nextHash_sum_exact:
  assumes k: "1 \<le> k" and hs: "\<forall>t\<in>set hs. t < RollingHash_mod" and t: "t < RollingHash_mod"
  shows "nextHash_sum (rolling k hs) t < 2 ^ 53"
proof -
  let ?rh = "rolling k hs"
  from RH_bounds [OF k hs]
  have h: "rh_hash ?rh < RollingHash_mod" and mb: "maxBase ?rh \<le> RollingHash_mod"
    and mem: "\<forall>x\<in>set (memory ?rh). x < RollingHash_mod"
    and i: "rh_i ?rh < length (memory ?rh)"
    by simp_all
  have m: "memory ?rh ! rh_i ?rh < RollingHash_mod"
    using mem i by simp
  have "RollingHash_base * rh_hash ?rh \<le> RollingHash_base * RollingHash_mod"
    using h by simp
  moreover have "maxBase ?rh * (memory ?rh ! rh_i ?rh) \<le> RollingHash_mod * RollingHash_mod"
    using mb m by (intro mult_mono) simp_all
  ultimately have "nextHash_sum ?rh t
        \<le> RollingHash_base * RollingHash_mod + RollingHash_mod + RollingHash_mod * RollingHash_mod"
    using t unfolding nextHash_sum_def by linarith
  also have "\<dots> < 2 ^ 53"
    by (simp add: RollingHash_base_def RollingHash_mod_def)
  finally show ?thesis .
qed

text \<open>
  C2. For a window length \<open>1 \<le> k < 2 ^ 31\<close> and token hashes below the modulus, the
  number \<^verbatim>\<open>nextHash\<close> returns at position \<open>i \<ge> k - 1\<close> is the reference hash of the \<open>k\<close>
  most recent token hashes, \<open>\<Sum>j. hs[i-k+1+j] * BASE ^ (k-1-j) mod MOD\<close>, which is also
  what Horner's rule gives on that window; the constructor's \<^verbatim>\<open>maxBase\<close> is
  \<open>MOD - BASE ^ k mod MOD\<close>, and the sum \<^verbatim>\<open>nextHash\<close> reduces stays below \<open>2 ^ 53\<close>, so
  it is computed exactly. The bound on \<open>k\<close> is the range in which \<^verbatim>\<open>modPow\<close>'s 32-bit
  operators \<^verbatim>\<open>e & 1\<close> and \<^verbatim>\<open>e >>= 1\<close> see the exponent itself.
\<close>

theorem RollingHash_equals_reference:
  assumes "1 \<le> k" and "k < 2 ^ 31" and "k - 1 \<le> i" and "i < length hs"
    and "\<forall>t\<in>set hs. t < RollingHash_mod"
  shows "rh_hash (foldl nextHash (RollingHash_new k) (take (Suc i) hs))
           = reference_hash (take k (drop (Suc i - k) hs)) \<and>
         reference_hash (take k (drop (Suc i - k) hs))
           = horner_hash (take k (drop (Suc i - k) hs)) \<and>
         maxBase (RollingHash_new k)
           = RollingHash_mod - RollingHash_base ^ k mod RollingHash_mod \<and>
         nextHash_sum (foldl nextHash (RollingHash_new k) (take i hs)) (hs ! i) < 2 ^ 53"
proof -
  have kn: "k \<le> Suc i" using assms(3) by simp
  have "rh_hash (rolling k (take (Suc i) hs)) = reference_hash (take k (drop (Suc i - k) hs))"
    by (rule rolling_hash_reference [OF assms(1,2) kn]) (use assms(4) in simp)
  moreover have "\<forall>t\<in>set (take i hs). t < RollingHash_mod"
    using assms(5) by (meson in_set_takeD)
  then have "nextHash_sum (rolling k (take i hs)) (hs ! i) < 2 ^ 53"
    by (rule nextHash_sum_exact [OF assms(1)]) (use assms(4,5) in simp)
  ultimately show ?thesis
    using assms(1,2)
    by (simp add: rolling_def reference_hash_polyval horner_hash_polyval RollingHash_new_def
        modPow_correct)
qed

theorem RollingHash_equals_reference_witness:
  "(1::nat) \<le> 2 \<and> (2::nat) < 2 ^ 31 \<and> (2::nat) - 1 \<le> 2 \<and> (2::nat) < length [5, 7, 11 :: nat] \<and>
   rh_hash (foldl nextHash (RollingHash_new 2) [5, 7, 11]) = 29360118 \<and>
   reference_hash [7, 11] = 29360118 \<and>
   horner_hash [7, 11] = 29360118"
proof -
  have b: "\<forall>t\<in>set [5, 7, 11 :: nat]. t < RollingHash_mod"
    by (simp add: RollingHash_mod_def)
  have r: "reference_hash [7, 11] = 29360118"
    by (simp add: reference_hash_def RollingHash_base_def RollingHash_mod_def upt_rec)
  have t: "take (Suc 2) [5, 7, 11 :: nat] = [5, 7, 11]" "take 2 (drop (Suc 2 - 2) [5, 7, 11 :: nat]) = [7, 11]"
    by simp_all
  from RollingHash_equals_reference [of 2 2 "[5, 7, 11]", unfolded t] b r
  show ?thesis by simp
qed

text \<open>
  C1. For \<open>1 \<le> k < 2 ^ 31\<close> and \<open>w \<ge> 1\<close>: when two token sequences both contain the
  contiguous run \<open>S\<close> of at least \<open>k + w - 1\<close> tokens, their fingerprint sequences
  contain Fingerprints with the same hash. The bound on \<open>k\<close> is that of the rolling hash
  (C2); a k-gram of \<open>2 ^ 31\<close> tokens or more is beyond any token array the filter is
  given.
\<close>

theorem winnowing_guarantee:
  assumes "1 \<le> k" and "k < 2 ^ 31" and "1 \<le> w" and "k + w - 1 \<le> length S"
  shows "\<exists>fa\<in>set (fingerprints k w dA (pa @ S @ qa)).
         \<exists>fb\<in>set (fingerprints k w dB (pb @ S @ qb)). hash fa = hash fb"
  using assms by (rule winnowing_guarantee_aux)

theorem winnowing_guarantee_witness:
  "(1::nat) \<le> 2 \<and> (2::nat) < 2 ^ 31 \<and> (1::nat) \<le> 2 \<and> (2::nat) + 2 - 1 \<le> length [[97], [98], [99 :: 16 word]] \<and>
   (\<exists>fa\<in>set (fingerprints 2 2 False ([[120]] @ [[97], [98], [99]] @ [])).
    \<exists>fb\<in>set (fingerprints 2 2 True ([] @ [[97], [98], [99]] @ [[121], [122]])). hash fa = hash fb)"
  using winnowing_guarantee [of 2 2 "[[97], [98], [99]]" False "[[120]]" "[]" True "[]" "[[121], [122]]"]
  by simp

section \<open>The selection rule of the winnowing loop\<close>

lemma rescan_select:
  assumes w: "0 < w" and lo: "lo + w = f + 1"
    and buf: "\<forall>j. lo \<le> j \<and> j \<le> f \<longrightarrow> buf ! slot w j = g j"
  shows "lo \<le> c \<Longrightarrow> c \<le> f \<Longrightarrow> lo \<le> m \<Longrightarrow> m \<le> f \<Longrightarrow>
         \<exists>r. rescan w (slot w f) buf (slot w c) (slot w m) = slot w r \<and>
           ((r = m \<and> (\<forall>j. c \<le> j \<and> j < f \<longrightarrow> g m < g j)) \<or>
            (c \<le> r \<and> r < f \<and> g r \<le> g m \<and>
             (\<forall>j. c \<le> j \<and> j < f \<longrightarrow> g r \<le> g j \<and> (g j = g r \<longrightarrow> j \<le> r))))"
proof (induction "f - c" arbitrary: c m)
  case 0
  then have "c = f" by simp
  then show ?case
    by (auto simp: rescan_stop)
next
  case (Suc d)
  then have cf: "c < f" by simp
  have ne: "slot w c \<noteq> slot w f"
    using slot_neq [of c f w] cf Suc.prems lo by simp
  define m' where "m' = (if g c \<le> g m then c else m)"
  have m'r: "lo \<le> m'" "m' \<le> f"
    using Suc.prems by (simp_all add: m'_def)
  have bc: "buf ! slot w c = g c" and bm: "buf ! slot w m = g m"
    using buf Suc.prems by simp_all
  have unfold: "rescan w (slot w f) buf (slot w c) (slot w m)
                = rescan w (slot w f) buf (slot w (Suc c)) (slot w m')"
    using ne slot_lt [OF w]
    by (subst rescan.simps) (simp add: slot_Suc' bc bm m'_def)
  have "d = f - Suc c" using Suc.hyps by simp
  from Suc.hyps(1) [OF this _ _ m'r]
  obtain r where r: "rescan w (slot w f) buf (slot w (Suc c)) (slot w m') = slot w r"
      and alt: "(r = m' \<and> (\<forall>j. Suc c \<le> j \<and> j < f \<longrightarrow> g m' < g j)) \<or>
            (Suc c \<le> r \<and> r < f \<and> g r \<le> g m' \<and>
             (\<forall>j. Suc c \<le> j \<and> j < f \<longrightarrow> g r \<le> g j \<and> (g j = g r \<longrightarrow> j \<le> r)))"
    using cf Suc.prems by auto
  have split: "c \<le> j \<and> j < f \<longleftrightarrow> j = c \<or> (Suc c \<le> j \<and> j < f)" for j
    using cf by auto
  have "(r = m \<and> (\<forall>j. c \<le> j \<and> j < f \<longrightarrow> g m < g j)) \<or>
            (c \<le> r \<and> r < f \<and> g r \<le> g m \<and>
             (\<forall>j. c \<le> j \<and> j < f \<longrightarrow> g r \<le> g j \<and> (g j = g r \<longrightarrow> j \<le> r)))"
  proof (cases "g c \<le> g m")
    case True
    then have m': "m' = c" by (simp add: m'_def)
    from alt show ?thesis
    proof
      assume a: "r = m' \<and> (\<forall>j. Suc c \<le> j \<and> j < f \<longrightarrow> g m' < g j)"
      then have "r = c" using m' by simp
      moreover have "\<forall>j. c \<le> j \<and> j < f \<longrightarrow> g c \<le> g j \<and> (g j = g c \<longrightarrow> j \<le> c)"
        using a m' unfolding split by auto
      ultimately show ?thesis using True cf by auto
    next
      assume a: "Suc c \<le> r \<and> r < f \<and> g r \<le> g m' \<and>
             (\<forall>j. Suc c \<le> j \<and> j < f \<longrightarrow> g r \<le> g j \<and> (g j = g r \<longrightarrow> j \<le> r))"
      then have "g r \<le> g c" "g r \<le> g m" using m' True by simp_all
      moreover have "\<forall>j. c \<le> j \<and> j < f \<longrightarrow> g r \<le> g j \<and> (g j = g r \<longrightarrow> j \<le> r)"
        using a \<open>g r \<le> g c\<close> unfolding split by auto
      ultimately show ?thesis using a by auto
    qed
  next
    case False
    then have m': "m' = m" and lt: "g m < g c" by (simp_all add: m'_def)
    from alt show ?thesis
    proof
      assume a: "r = m' \<and> (\<forall>j. Suc c \<le> j \<and> j < f \<longrightarrow> g m' < g j)"
      then have "\<forall>j. c \<le> j \<and> j < f \<longrightarrow> g m < g j"
        using m' lt unfolding split by auto
      then show ?thesis using a m' by auto
    next
      assume a: "Suc c \<le> r \<and> r < f \<and> g r \<le> g m' \<and>
             (\<forall>j. Suc c \<le> j \<and> j < f \<longrightarrow> g r \<le> g j \<and> (g j = g r \<longrightarrow> j \<le> r))"
      then have "g r \<le> g m" "g r < g c" using m' lt by simp_all
      moreover have "\<forall>j. c \<le> j \<and> j < f \<longrightarrow> g r \<le> g j \<and> (g j = g r \<longrightarrow> j \<le> r)"
        using a \<open>g r < g c\<close> unfolding split by auto
      ultimately show ?thesis using a by auto
    qed
  qed
  then show ?case
    using r unfold by auto
qed

lemma winnow_step_selection:
  assumes k: "1 \<le> k" and w: "0 < w" and n: "n < length hs" and kn: "k \<le> n"
    and ht: "fst ht = hs ! n"
    and old: "W_inv k w d tokens hs n s"
    and s': "s' = winnow_step k w d tokens s ht"
    and f: "f = Suc n - k" and g: "g = kgram_hash k hs"
  shows "bufferPos s' = slot w f \<and> filePos s' = int f \<and>
    (\<exists>jm. window_min w g (f - 1) jm \<and> minPos s = slot w jm \<and> buffer s ! minPos s = g jm) \<and>
    (minPos s \<noteq> slot w f \<and> g f \<le> buffer s ! minPos s \<longrightarrow>
       minPos s' = slot w f \<and> fps s' = fps s @ [fp_at k d tokens g f]) \<and>
    (minPos s \<noteq> slot w f \<and> \<not> g f \<le> buffer s ! minPos s \<longrightarrow>
       minPos s' = minPos s \<and> fps s' = fps s) \<and>
    (minPos s = slot w f \<longrightarrow>
       w \<le> f \<and>
       (\<exists>r. minPos s' = slot w r \<and> fps s' = fps s @ [fp_at k d tokens g r] \<and>
          ((r = f \<and> (\<forall>j. f < j + w \<and> j < f \<longrightarrow> g f < g j)) \<or>
           (f < r + w \<and> r < f \<and> g r \<le> g f \<and>
            (\<forall>j. f < j + w \<and> j < f \<longrightarrow> g r \<le> g j \<and> (g j = g r \<longrightarrow> j \<le> r))))))"
proof -
  define h where "h = nextHash (hasher s) (fst ht)"
  have nk: "\<not> n < k" using kn by simp
  have fS: "f = Suc (n - k)" using kn f by simp
  have fpos: "filePos s = int n - int k" and hash: "hasher s = rolling k (take n hs)"
    and len: "length (buffer s) = w"
    using old by (simp_all add: W_inv_def)
  have h_roll: "h = rolling k (take (Suc n) hs)"
    using n by (simp add: h_def hash ht rolling_take_Suc)
  have nonneg: "\<not> filePos s + 1 < 0" and fpos': "filePos s + 1 = int f"
    using fpos kn by (simp_all add: f)
  have gf: "rh_hash h = g f"
    using kn by (simp add: kgram_hash_def h_roll f g)
  define bp where "bp = (bufferPos s + 1) mod w"
  define buf where "buf = (buffer s)[bp := rh_hash h]"
  have "bufferPos s = slot w (n - k)" using old nk by (simp add: W_inv_def)
  then have bp_slot: "bp = slot w f"
    by (simp add: bp_def slot_Suc' fS)
  have bp_lt: "bp < w" using w by (simp add: bp_def)
  have buf_new: "buf ! slot w f = g f"
    using bp_lt len by (simp add: buf_def bp_slot [symmetric] gf)
  obtain jm where jm: "window_min w g (n - k) jm" "minPos s = slot w jm"
    using old nk unfolding W_inv_def g by auto
  have old_content: "buffer s ! slot w j = g j" if "in_window w (n - k) j" for j
    using old nk that unfolding W_inv_def g by simp
  have jm_old: "jm \<le> n - k" "n - k < jm + w"
    using jm(1) by (simp_all add: window_min_def in_window_def)
  have bjm: "buffer s ! minPos s = g jm"
    using old_content [of jm] jm by (simp add: window_min_def)
  have content: "\<forall>j. in_window w f j \<longrightarrow> buf ! slot w j = g j"
  proof (intro allI impI)
    fix j assume iw: "in_window w f j"
    show "buf ! slot w j = g j"
    proof (cases "j = f")
      case True
      then show ?thesis using buf_new by simp
    next
      case False
      with iw have jlt: "j < f" and fj: "f < j + w" by (simp_all add: in_window_def)
      have "in_window w (n - k) j"
        using jlt fj by (simp add: in_window_def fS)
      then have "buffer s ! slot w j = g j" by (rule old_content)
      moreover have "slot w j \<noteq> bp"
        unfolding bp_slot using slot_neq [OF jlt fj] by simp
      ultimately show ?thesis by (simp add: buf_def)
    qed
  qed
  have self_window: "in_window w f f"
    using w by (simp add: in_window_def)
  have c1: "bufferPos s' = slot w f \<and> filePos s' = int f"
    unfolding s' using nonneg fpos' bp_slot
    by (simp add: winnow_step_def Let_def bp_def)
  have c2: "\<exists>jm. window_min w g (f - 1) jm \<and> minPos s = slot w jm \<and> buffer s ! minPos s = g jm"
    using jm bjm by (auto simp: fS)
  have c3: "minPos s' = slot w f \<and> fps s' = fps s @ [fp_at k d tokens g f]"
    if ne: "minPos s \<noteq> slot w f" and le: "g f \<le> buffer s ! minPos s"
  proof -
    have mp_ne: "minPos s \<noteq> bp" using ne bp_slot by simp
    have "buf ! minPos s = buffer s ! minPos s"
      using mp_ne by (simp add: buf_def)
    then have cmp: "buf ! bp \<le> buf ! minPos s"
      using le buf_new by (simp add: bp_slot)
    have nf: "new_fingerprint k w d tokens buf (int f) bp bp = fp_at k d tokens g f"
      unfolding bp_slot by (rule new_fingerprint_fp_at [OF self_window]) (rule buf_new)
    show ?thesis
      unfolding s'
      using winnow_step_newmin [OF nonneg mp_ne [unfolded bp_def] bp_def h_def buf_def cmp]
      by (simp add: nf fpos' bp_slot [symmetric])
  qed
  have c4: "minPos s' = minPos s \<and> fps s' = fps s"
    if ne: "minPos s \<noteq> slot w f" and nle: "\<not> g f \<le> buffer s ! minPos s"
  proof -
    have mp_ne: "minPos s \<noteq> bp" using ne bp_slot by simp
    have "buf ! minPos s = buffer s ! minPos s"
      using mp_ne by (simp add: buf_def)
    then have cmp: "\<not> buf ! bp \<le> buf ! minPos s"
      using nle buf_new by (simp add: bp_slot)
    show ?thesis
      unfolding s'
      using winnow_step_keep [OF nonneg mp_ne [unfolded bp_def] bp_def h_def buf_def cmp]
      by simp
  qed
  have c5: "w \<le> f \<and>
       (\<exists>r. minPos s' = slot w r \<and> fps s' = fps s @ [fp_at k d tokens g r] \<and>
          ((r = f \<and> (\<forall>j. f < j + w \<and> j < f \<longrightarrow> g f < g j)) \<or>
           (f < r + w \<and> r < f \<and> g r \<le> g f \<and>
            (\<forall>j. f < j + w \<and> j < f \<longrightarrow> g r \<le> g j \<and> (g j = g r \<longrightarrow> j \<le> r)))))"
    if eq: "minPos s = slot w f"
  proof -
    have mp_eq: "minPos s = bp" using eq bp_slot by simp
    have "jm \<le> f" "f \<le> jm + w"
      using jm_old by (simp_all add: fS)
    moreover have "slot w f = slot w jm"
      using jm(2) eq by simp
    ultimately have "f = jm \<or> f = jm + w"
      by (rule slot_eq_full)
    moreover have "jm \<noteq> f"
      using jm_old by (simp add: fS)
    ultimately have fjm: "f = jm + w" by simp
    define lo where "lo = Suc jm"
    have lo: "lo + w = f + 1" by (simp add: lo_def fjm)
    have range: "f < j + w \<longleftrightarrow> lo \<le> j" for j
      using lo by auto
    have buf_range: "\<forall>j. lo \<le> j \<and> j \<le> f \<longrightarrow> buf ! slot w j = g j"
      using content range by (simp add: in_window_def)
    have start_i': "Suc bp mod w = slot w lo"
    proof -
      have "Suc bp mod w = slot w (Suc f)"
        by (simp add: bp_slot slot_Suc')
      also have "Suc f = lo + w" using lo by simp
      finally show ?thesis by (simp add: slot_wrap)
    qed
    have "\<exists>r. rescan w (slot w f) buf (slot w lo) (slot w f) = slot w r \<and>
           ((r = f \<and> (\<forall>j. lo \<le> j \<and> j < f \<longrightarrow> g f < g j)) \<or>
            (lo \<le> r \<and> r < f \<and> g r \<le> g f \<and>
             (\<forall>j. lo \<le> j \<and> j < f \<longrightarrow> g r \<le> g j \<and> (g j = g r \<longrightarrow> j \<le> r))))"
      by (rule rescan_select [OF w lo buf_range]) (use lo w in simp_all)
    then obtain r where r: "rescan w (slot w f) buf (slot w lo) (slot w f) = slot w r"
      and alt: "(r = f \<and> (\<forall>j. lo \<le> j \<and> j < f \<longrightarrow> g f < g j)) \<or>
            (lo \<le> r \<and> r < f \<and> g r \<le> g f \<and>
             (\<forall>j. lo \<le> j \<and> j < f \<longrightarrow> g r \<le> g j \<and> (g j = g r \<longrightarrow> j \<le> r)))"
      by blast
    have "lo \<le> f" using lo w by simp
    then have rw: "in_window w f r"
      using alt range [of r] range [of f] by (auto simp: in_window_def)
    have mp: "rescan w bp buf (Suc bp mod w) (minPos s) = slot w r"
      using r by (simp add: start_i' mp_eq bp_slot [symmetric])
    have nf: "new_fingerprint k w d tokens buf (int f) bp (slot w r) = fp_at k d tokens g r"
      unfolding bp_slot by (rule new_fingerprint_fp_at [OF rw]) (use content rw in simp)
    have "minPos s' = slot w r \<and> fps s' = fps s @ [fp_at k d tokens g r]"
      unfolding s'
      using winnow_step_rescan [OF nonneg mp_eq [unfolded bp_def] bp_def h_def buf_def refl]
      by (simp add: mp nf fpos')
    moreover have "w \<le> f" using fjm by simp
    ultimately show ?thesis
      using alt unfolding range by blast
  qed
  show ?thesis
    using c1 c2 c3 c4 c5 by blast
qed

lemma winnow_selection_aux:
  assumes k: "1 \<le> k" and w: "1 \<le> w" and kn: "k \<le> n" and n: "n < length hts"
    and s: "s = winnow_run k w d tokens (take n hts)"
    and s': "s' = winnow_run k w d tokens (take (Suc n) hts)"
    and g: "g = kgram_hash k (map fst hts)" and f: "f = Suc n - k"
  shows "bufferPos s' = slot w f \<and> filePos s' = int f \<and>
    (\<exists>jm. window_min w g (f - 1) jm \<and> minPos s = slot w jm \<and> buffer s ! minPos s = g jm) \<and>
    (minPos s \<noteq> slot w f \<and> g f \<le> buffer s ! minPos s \<longrightarrow>
       minPos s' = slot w f \<and> fps s' = fps s @ [fp_at k d tokens g f]) \<and>
    (minPos s \<noteq> slot w f \<and> \<not> g f \<le> buffer s ! minPos s \<longrightarrow>
       minPos s' = minPos s \<and> fps s' = fps s) \<and>
    (minPos s = slot w f \<longrightarrow>
       w \<le> f \<and>
       (\<exists>r. minPos s' = slot w r \<and> fps s' = fps s @ [fp_at k d tokens g r] \<and>
          ((r = f \<and> (\<forall>j. f < j + w \<and> j < f \<longrightarrow> g f < g j)) \<or>
           (f < r + w \<and> r < f \<and> g r \<le> g f \<and>
            (\<forall>j. f < j + w \<and> j < f \<longrightarrow> g r \<le> g j \<and> (g j = g r \<longrightarrow> j \<le> r))))))"
proof -
  have w0: "0 < w" using w by simp
  have inv: "W_inv k w d tokens (map fst hts) n s"
    unfolding s by (rule W_inv_run [OF k w0]) (use n in simp)
  have step: "s' = winnow_step k w d tokens s (hts ! n)"
    using n by (simp add: s s' take_Suc_conv_app_nth winnow_run_snoc)
  show ?thesis
    by (rule winnow_step_selection [OF k w0 _ kn _ inv step f g]) (use n in simp_all)
qed

lemma replicate_2: "replicate 2 x = [x, x]"
  by (simp add: numeral_2_eq_2)

lemma hashTokens_abbb:
  "hashTokens [[97], [98], [98], [98]]
   = [(5378053, [97]), (6125340, [98]), (6125340, [98]), (6125340, [98])]"
  by (simp add: hashTokens_def hashToken_def TokenHash_base_def TokenHash_mod_def)

lemma winnow_run_abb:
  "winnow_run 1 2 False [[97], [98], [98], [98]]
     [(5378053, [97]), (6125340, [98]), (6125340, [98])]
   = \<lparr>hasher = \<lparr>rh_k = 1, memory = [6125340], maxBase = 29360092, rh_i = 0, rh_hash = 6125340\<rparr>,
      filePos = 2, bufferPos = 1, minPos = 0, buffer = [6125340, 6125340],
      fps = [\<lparr>data = None, hash = 5378053, start = 0, stop = 0\<rparr>,
             \<lparr>data = None, hash = 6125340, start = 1, stop = 1\<rparr>]\<rparr>"
  by (simp add: winnow_eval replicate_2)

lemma winnow_run_abbb:
  "winnow_run 1 2 False [[97], [98], [98], [98]]
     [(5378053, [97]), (6125340, [98]), (6125340, [98]), (6125340, [98])]
   = \<lparr>hasher = \<lparr>rh_k = 1, memory = [6125340], maxBase = 29360092, rh_i = 0, rh_hash = 6125340\<rparr>,
      filePos = 3, bufferPos = 0, minPos = 1, buffer = [6125340, 6125340],
      fps = [\<lparr>data = None, hash = 5378053, start = 0, stop = 0\<rparr>,
             \<lparr>data = None, hash = 6125340, start = 1, stop = 1\<rparr>,
             \<lparr>data = None, hash = 6125340, start = 2, stop = 2\<rparr>]\<rparr>"
proof -
  have "winnow_run 1 2 False [[97], [98], [98], [98]]
     ([(5378053, [97]), (6125340, [98]), (6125340, [98])] @ [(6125340, [98])])
     = winnow_step 1 2 False [[97], [98], [98], [98]]
        (winnow_run 1 2 False [[97], [98], [98], [98]]
           [(5378053, [97]), (6125340, [98]), (6125340, [98])]) (6125340, [98])"
    by (rule winnow_run_snoc)
  then show ?thesis
    unfolding winnow_run_abb
    by (simp add: winnow_step_def nextHash_def nextHash_sum_def RollingHash_mod_def
        RollingHash_base_def Let_def rescan.simps new_fingerprint_def js_rem_def)
qed

lemma fingerprints_abbb:
  "fingerprints 1 2 False [[97], [98], [98], [98]]
   = [\<lparr>data = None, hash = 5378053, start = 0, stop = 0\<rparr>,
      \<lparr>data = None, hash = 6125340, start = 1, stop = 1\<rparr>,
      \<lparr>data = None, hash = 6125340, start = 2, stop = 2\<rparr>]"
  unfolding fingerprints_def hashTokens_abbb winnow_run_abbb by simp

text \<open>
  C4, as stated, fails. With \<open>k = 1\<close> and \<open>w = 2\<close> on the tokens \<^verbatim>\<open>"a", "b", "b", "b"\<close>
  the fourth hash enters while the window holds two copies of the same hash and the
  tracked minimum is in the slot that is overwritten. The entering hash equals the tracked
  minimum, yet after the step the selected slot (\<open>minPos = 1\<close>) is not the newest one
  (\<open>bufferPos = 0\<close>), and the Fingerprint emitted is that of k-gram 2, not of the rightmost
  k-gram 3 (\<open>filePos = 3\<close>).
\<close>

theorem rightmost_tie_break_counterexample:
  "rh_hash (hasher (winnow_run 1 2 False [[97], [98], [98], [98]]
      (take 4 (hashTokens [[97], [98], [98], [98]]))))
   = buffer (winnow_run 1 2 False [[97], [98], [98], [98]]
      (take 3 (hashTokens [[97], [98], [98], [98]])))
     ! minPos (winnow_run 1 2 False [[97], [98], [98], [98]]
      (take 3 (hashTokens [[97], [98], [98], [98]]))) \<and>
   bufferPos (winnow_run 1 2 False [[97], [98], [98], [98]]
      (take 4 (hashTokens [[97], [98], [98], [98]]))) = 0 \<and>
   minPos (winnow_run 1 2 False [[97], [98], [98], [98]]
      (take 4 (hashTokens [[97], [98], [98], [98]]))) = 1 \<and>
   filePos (winnow_run 1 2 False [[97], [98], [98], [98]]
      (take 4 (hashTokens [[97], [98], [98], [98]]))) = 3 \<and>
   fingerprints 1 2 False [[97], [98], [98], [98]]
   = [\<lparr>data = None, hash = 5378053, start = 0, stop = 0\<rparr>,
      \<lparr>data = None, hash = 6125340, start = 1, stop = 1\<rparr>,
      \<lparr>data = None, hash = 6125340, start = 2, stop = 2\<rparr>]"
proof -
  have t3: "take 3 (hashTokens [[97], [98], [98], [98]])
            = [(5378053, [97]), (6125340, [98]), (6125340, [98])]"
    and t4: "take 4 (hashTokens [[97], [98], [98], [98]])
            = [(5378053, [97]), (6125340, [98]), (6125340, [98]), (6125340, [98])]"
    by (simp_all add: hashTokens_abbb)
  show ?thesis
    unfolding t3 t4 winnow_run_abb winnow_run_abbb fingerprints_abbb by simp
qed

text \<open>
  C4, amended. Let \<open>s\<close> be the state of the loop after \<open>n \<ge> k\<close> tokens, \<open>s'\<close> the state
  after the next token, \<open>f\<close> the k-gram that enters and \<open>g j\<close> the hash of k-gram \<open>j\<close>.
  The entering hash is written at slot \<open>slot w f\<close>, and the tracked minimum
  \<open>buffer s ! minPos s\<close> is a least hash of the window before the step.
  \<^item> When the slot of the tracked minimum is not the one overwritten and the entering
    hash is at most the tracked minimum (in particular when it ties it), the entering,
    rightmost k-gram becomes the selected minimum and a Fingerprint is emitted for it.
  \<^item> When that slot is not overwritten and the entering hash is larger, nothing is
    emitted and the selection stays.
  \<^item> When the slot of the tracked minimum is the one overwritten (the only case in
    which the window is scanned), a Fingerprint is always emitted, for the k-gram
    \<open>r\<close> the scan selects: the entering k-gram when its hash is strictly below every
    older hash of the window, and otherwise the rightmost of the older k-grams with the
    least hash. On a tie between the entering hash and an older one the older position
    is selected.
\<close>

theorem winnow_selection_rule:
  assumes "1 \<le> k" and "1 \<le> w" and "k \<le> n" and "n < length hts"
    and "s = winnow_run k w d tokens (take n hts)"
    and "s' = winnow_run k w d tokens (take (Suc n) hts)"
    and "g = kgram_hash k (map fst hts)" and "f = Suc n - k"
  shows "bufferPos s' = slot w f \<and> filePos s' = int f \<and>
    (\<exists>jm. window_min w g (f - 1) jm \<and> minPos s = slot w jm \<and> buffer s ! minPos s = g jm) \<and>
    (minPos s \<noteq> slot w f \<and> g f \<le> buffer s ! minPos s \<longrightarrow>
       minPos s' = slot w f \<and> fps s' = fps s @ [fp_at k d tokens g f]) \<and>
    (minPos s \<noteq> slot w f \<and> \<not> g f \<le> buffer s ! minPos s \<longrightarrow>
       minPos s' = minPos s \<and> fps s' = fps s) \<and>
    (minPos s = slot w f \<longrightarrow>
       w \<le> f \<and>
       (\<exists>r. minPos s' = slot w r \<and> fps s' = fps s @ [fp_at k d tokens g r] \<and>
          ((r = f \<and> (\<forall>j. f < j + w \<and> j < f \<longrightarrow> g f < g j)) \<or>
           (f < r + w \<and> r < f \<and> g r \<le> g f \<and>
            (\<forall>j. f < j + w \<and> j < f \<longrightarrow> g r \<le> g j \<and> (g j = g r \<longrightarrow> j \<le> r))))))"
  using assms by (rule winnow_selection_aux)

theorem winnow_selection_rule_witness:
  "(1::nat) \<le> 1 \<and> (1::nat) \<le> 2 \<and> (1::nat) \<le> 3 \<and>
   3 < length (hashTokens [[97], [98], [98], [98]]) \<and>
   bufferPos (winnow_run 1 2 False [[97], [98], [98], [98]]
      (take (Suc 3) (hashTokens [[97], [98], [98], [98]]))) = slot 2 (Suc 3 - 1) \<and>
   filePos (winnow_run 1 2 False [[97], [98], [98], [98]]
      (take (Suc 3) (hashTokens [[97], [98], [98], [98]]))) = int (Suc 3 - 1)"
  using winnow_selection_rule [of 1 2 3 "hashTokens [[97], [98], [98], [98]]" _ False
      "[[97], [98], [98], [98]]" _ _ _, OF _ _ _ _ refl refl refl refl]
  by (simp add: hashTokens_def)

section \<open>Fingerprint offsets\<close>

lemma fingerprints_bounds_aux:
  assumes "1 \<le> k" and "1 \<le> w" and "fp \<in> set (fingerprints k w d tokens)"
  shows "0 \<le> start fp \<and> stop fp = start fp + int k - 1 \<and> stop fp \<le> int (length tokens) - 1 \<and>
         start fp \<le> stop fp"
proof -
  have "0 < w" using assms(2) by simp
  from fingerprints_shape [OF assms(1) this assms(3)]
  obtain j where "j + k \<le> length tokens"
      "fp = fp_at k d tokens (kgram_hash k (map hashToken tokens)) j"
    by blast
  then show ?thesis
    using assms(1) by (simp add: fp_at_def)
qed

lemma fingerprints_ab:
  "fingerprints 2 2 True [[97], [98]]
   = [\<lparr>data = Some [[97], [98]], hash = 3626292, start = 0, stop = 1\<rparr>]"
  by (simp add: winnow_eval replicate_2)

lemma Range_new_fingerprint:
  assumes "0 \<le> a" and "b = a + int k - 1" and "1 \<le> k"
  shows "Range_new a b =
           (if k = 1 then Inl (InvalidRange a b) else Inr \<lparr>range_from = a, range_to = b\<rparr>)"
  using assms by (auto simp: Range_new_def Let_def)

text \<open>
  C10. For \<open>k \<ge> 1\<close> and \<open>w \<ge> 1\<close>, every Fingerprint of \<open>fingerprints tokens\<close> has
  \<open>start \<ge> 0\<close> and \<open>stop = start + k - 1 \<le> length tokens - 1\<close>: both are indices into
  the tokens, and into a Region array of the same length, where the lookups at
  \<open>start\<close> and \<open>stop\<close> find their elements. In \<^verbatim>\<open>addFiles\<close> the lookups come after
  \<^verbatim>\<open>new Range(start, stop)\<close>: for \<open>k \<ge> 2\<close> the Range is built and the location is the
  merge of the Regions at \<open>start\<close> and \<open>stop\<close>; for \<open>k = 1\<close>, where \<open>start = stop\<close>, the
  Range constructor throws and the lookups are not reached.
\<close>

theorem fingerprint_offsets_in_bounds:
  assumes "1 \<le> k" and "1 \<le> w" and "fp \<in> set (fingerprints k w d tokens)"
    and "length tokenRegions = length tokens"
  shows "0 \<le> start fp \<and> stop fp = start fp + int k - 1 \<and> stop fp \<le> int (length tokens) - 1 \<and>
         js_index tokens (start fp) = Some (tokens ! nat (start fp)) \<and>
         js_index tokens (stop fp) = Some (tokens ! nat (stop fp)) \<and>
         js_index tokenRegions (start fp) = Some (tokenRegions ! nat (start fp)) \<and>
         js_index tokenRegions (stop fp) = Some (tokenRegions ! nat (stop fp)) \<and>
         (2 \<le> k \<longrightarrow>
            addFiles_fingerprint tokenRegions (start fp) (stop fp) =
              (case Region_merge (tokenRegions ! nat (start fp)) (tokenRegions ! nat (stop fp)) of
                 Inl e \<Rightarrow> Inl e
               | Inr location \<Rightarrow>
                   Inr (\<lparr>range_from = start fp, range_to = stop fp\<rparr>, location))) \<and>
         (k = 1 \<longrightarrow>
            addFiles_fingerprint tokenRegions (start fp) (stop fp)
              = Inl (InvalidRange (start fp) (stop fp)))"
proof -
  from fingerprints_bounds_aux [OF assms(1,2,3)]
  have b: "0 \<le> start fp" "stop fp = start fp + int k - 1" "stop fp \<le> int (length tokens) - 1"
    "start fp \<le> stop fp"
    by simp_all
  have idx: "js_index tokens (start fp) = Some (tokens ! nat (start fp))"
    "js_index tokens (stop fp) = Some (tokens ! nat (stop fp))"
    "js_index tokenRegions (start fp) = Some (tokenRegions ! nat (start fp))"
    "js_index tokenRegions (stop fp) = Some (tokenRegions ! nat (stop fp))"
    using b assms(4) by (simp_all add: js_index_def)
  have rng: "Range_new (start fp) (stop fp) =
           (if k = 1 then Inl (InvalidRange (start fp) (stop fp))
            else Inr \<lparr>range_from = start fp, range_to = stop fp\<rparr>)"
    by (rule Range_new_fingerprint [OF b(1,2) assms(1)])
  have loc: "addFiles_location tokenRegions (start fp) (stop fp)
           = Region_merge (tokenRegions ! nat (start fp)) (tokenRegions ! nat (stop fp))"
    by (simp add: addFiles_location_def idx)
  have big: "addFiles_fingerprint tokenRegions (start fp) (stop fp) =
              (case Region_merge (tokenRegions ! nat (start fp)) (tokenRegions ! nat (stop fp)) of
                 Inl e \<Rightarrow> Inl e
               | Inr location \<Rightarrow>
                   Inr (\<lparr>range_from = start fp, range_to = stop fp\<rparr>, location))"
    if "2 \<le> k"
    using that by (simp add: addFiles_fingerprint_def rng loc)
  have one: "addFiles_fingerprint tokenRegions (start fp) (stop fp)
              = Inl (InvalidRange (start fp) (stop fp))"
    if "k = 1"
    using that by (simp add: addFiles_fingerprint_def rng)
  show ?thesis
    using b(1,2,3) idx big one by blast
qed

theorem fingerprint_offsets_in_bounds_witness:
  "(1::nat) \<le> 2 \<and> (2::nat) \<le> 2 \<and>
   \<lparr>data = Some [[97], [98]], hash = 3626292, start = 0, stop = 1\<rparr>
     \<in> set (fingerprints 2 2 True [[97], [98]]) \<and>
   js_index [[97], [98 :: 16 word]] 0 = Some [97] \<and>
   js_index [[97], [98 :: 16 word]] 1 = Some [98] \<and>
   addFiles_fingerprint
     [\<lparr>startRow = 0, startCol = 0, endRow = 0, endCol = 1\<rparr>,
      \<lparr>startRow = 1, startCol = 2, endRow = 1, endCol = 3\<rparr>] 0 1
     = Inr (\<lparr>range_from = 0, range_to = 1\<rparr>,
            \<lparr>startRow = 0, startCol = 0, endRow = 1, endCol = 3\<rparr>) \<and>
   (1::nat) \<le> 1 \<and>
   \<lparr>data = None, hash = 6125340, start = 2, stop = 2\<rparr>
     \<in> set (fingerprints 1 2 False [[97], [98], [98], [98]]) \<and>
   addFiles_fingerprint
     [\<lparr>startRow = 0, startCol = 0, endRow = 0, endCol = 1\<rparr>,
      \<lparr>startRow = 0, startCol = 2, endRow = 0, endCol = 3\<rparr>,
      \<lparr>startRow = 1, startCol = 0, endRow = 1, endCol = 1\<rparr>,
      \<lparr>startRow = 1, startCol = 2, endRow = 1, endCol = 3\<rparr>] 2 2
     = Inl (InvalidRange 2 2)"
proof -
  have m2: "\<lparr>data = Some [[97], [98]], hash = 3626292, start = 0, stop = 1\<rparr>
     \<in> set (fingerprints 2 2 True [[97], [98]])"
    unfolding fingerprints_ab by simp
  have m1: "\<lparr>data = None, hash = 6125340, start = 2, stop = 2\<rparr>
     \<in> set (fingerprints 1 2 False [[97], [98], [98], [98]])"
    unfolding fingerprints_abbb by simp
  from fingerprint_offsets_in_bounds [OF _ _ m2,
    of "[\<lparr>startRow = 0, startCol = 0, endRow = 0, endCol = 1\<rparr>,
      \<lparr>startRow = 1, startCol = 2, endRow = 1, endCol = 3\<rparr>]"]
  have a: "js_index [[97], [98 :: 16 word]] 0 = Some [97] \<and>
   js_index [[97], [98 :: 16 word]] 1 = Some [98] \<and>
   addFiles_fingerprint
     [\<lparr>startRow = 0, startCol = 0, endRow = 0, endCol = 1\<rparr>,
      \<lparr>startRow = 1, startCol = 2, endRow = 1, endCol = 3\<rparr>] 0 1
     = Inr (\<lparr>range_from = 0, range_to = 1\<rparr>,
            \<lparr>startRow = 0, startCol = 0, endRow = 1, endCol = 3\<rparr>)"
    by (simp add: Region_merge_def Region_new_def Region_valid_def)
  from fingerprint_offsets_in_bounds [OF _ _ m1,
    of "[\<lparr>startRow = 0, startCol = 0, endRow = 0, endCol = 1\<rparr>,
      \<lparr>startRow = 0, startCol = 2, endRow = 0, endCol = 3\<rparr>,
      \<lparr>startRow = 1, startCol = 0, endRow = 1, endCol = 1\<rparr>,
      \<lparr>startRow = 1, startCol = 2, endRow = 1, endCol = 3\<rparr>]"]
  have b: "addFiles_fingerprint
     [\<lparr>startRow = 0, startCol = 0, endRow = 0, endCol = 1\<rparr>,
      \<lparr>startRow = 0, startCol = 2, endRow = 0, endCol = 3\<rparr>,
      \<lparr>startRow = 1, startCol = 0, endRow = 1, endCol = 1\<rparr>,
      \<lparr>startRow = 1, startCol = 2, endRow = 1, endCol = 3\<rparr>] 2 2
     = Inl (InvalidRange 2 2)"
    by simp
  show ?thesis
    using a b m1 m2 by simp
qed

section \<open>Clustering and similarity in the detector\<close>

lemma clusters_Nil: "clusters k [] = []"
  by (simp add: clusters_def)

lemma clusters_snoc: "clusters k (ms @ [m]) = cluster_split_step k (clusters k ms) m"
  by (simp add: clusters_def)

lemma clusters_single: "clusters k [m] = [[m]]"
  by (simp add: clusters_def cluster_split_step_def)

lemma clusters_props:
  "concat (clusters k ms) = ms \<and> (\<forall>c\<in>set (clusters k ms). c \<noteq> []) \<and>
   (ms \<noteq> [] \<longrightarrow> clusters k ms \<noteq> [])"
proof (induction ms rule: rev_induct)
  case Nil
  then show ?case by (simp add: clusters_Nil)
next
  case (snoc m ms)
  show ?case
  proof (cases "clusters k ms = []")
    case True
    with snoc have "ms = []" by auto
    then show ?thesis
      by (simp add: clusters_single)
  next
    case False
    then have bl: "clusters k ms = butlast (clusters k ms) @ [last (clusters k ms)]"
      by simp
    have cc: "concat (butlast (clusters k ms)) @ last (clusters k ms) = ms"
      using snoc bl by (metis concat.simps(1,2) concat_append append_Nil2)
    have ne: "\<forall>c\<in>set (butlast (clusters k ms)). c \<noteq> []"
      using snoc by (meson in_set_butlastD)
    show ?thesis
      using False snoc cc ne
      by (auto simp: clusters_snoc cluster_split_step_def)
  qed
qed

lemma clusters_last_last:
  "ms \<noteq> [] \<Longrightarrow> last (last (clusters k ms)) = last ms"
proof (induction ms rule: rev_induct)
  case Nil
  then show ?case by simp
next
  case (snoc m ms)
  then show ?case
    by (simp add: clusters_snoc cluster_split_step_def)
qed

lemma successively_snoc:
  "successively P (xs @ [x]) \<longleftrightarrow> successively P xs \<and> (xs = [] \<or> P (last xs) x)"
  by (simp add: successively_append_iff)

lemma clusters_runs:
  "(\<forall>c\<in>set (clusters k ms). successively (shouldMerge k) c) \<and>
   successively (\<lambda>c c'. \<not> shouldMerge k (last c) (hd c')) (clusters k ms)"
proof (induction ms rule: rev_induct)
  case Nil
  then show ?case by (simp add: clusters_Nil)
next
  case (snoc m ms)
  let ?cs = "clusters k ms"
  show ?case
  proof (cases "?cs = []")
    case True
    then show ?thesis
      by (simp add: clusters_snoc cluster_split_step_def)
  next
    case False
    then have bl: "?cs = butlast ?cs @ [last ?cs]"
      by simp
    have lne: "last ?cs \<noteq> []"
      using clusters_props [of k ms] False by (meson last_in_set)
    have in1: "\<forall>c\<in>set (butlast ?cs). successively (shouldMerge k) c"
      using snoc by (meson in_set_butlastD)
    have in2: "successively (shouldMerge k) (last ?cs)"
      using snoc False by (meson last_in_set)
    have btw: "successively (\<lambda>c c'. \<not> shouldMerge k (last c) (hd c')) (butlast ?cs @ [last ?cs])"
      using snoc bl by simp
    show ?thesis
    proof (cases "shouldMerge k (last (last ?cs)) m")
      case True
      have "successively (shouldMerge k) (last ?cs @ [m])"
        using in2 True lne by (simp add: successively_snoc)
      moreover have "successively (\<lambda>c c'. \<not> shouldMerge k (last c) (hd c'))
                        (butlast ?cs @ [last ?cs @ [m]])"
        using btw lne by (simp add: successively_snoc)
      ultimately show ?thesis
        using False True in1 by (auto simp: clusters_snoc cluster_split_step_def)
    next
      case False
      note nm = False
      have "successively (\<lambda>c c'. \<not> shouldMerge k (last c) (hd c')) (?cs @ [[m]])"
        using snoc nm \<open>?cs \<noteq> []\<close> by (simp add: successively_snoc)
      then show ?thesis
        using \<open>?cs \<noteq> []\<close> nm snoc by (auto simp: clusters_snoc cluster_split_step_def)
    qed
  qed
qed

lemma sequence_err_append:
  "sequence_err (xs @ ys) =
     (case sequence_err xs of
        Inl e \<Rightarrow> Inl e
      | Inr vs \<Rightarrow> (case sequence_err ys of Inl e \<Rightarrow> Inl e | Inr ws \<Rightarrow> Inr (vs @ ws)))"
  by (induction xs) (auto split: sum.splits)

lemma closed_regions_snoc:
  "closed_regions k t1 t2 (cs @ [c]) =
     (case closed_regions k t1 t2 cs of
        Inl e \<Rightarrow> Inl e
      | Inr rs \<Rightarrow>
          if 2 \<le> length c
          then (case createSharedRegion k c t1 t2 of Inl e \<Rightarrow> Inl e | Inr r \<Rightarrow> Inr (rs @ [r]))
          else Inr rs)"
  by (auto simp: closed_regions_def sequence_err_append split: sum.splits)

lemma cluster_loop_invariant:
  "ms \<noteq> [] \<Longrightarrow>
   foldl (cluster_step k t1 t2) (Inr ([], [])) ms =
     (case closed_regions k t1 t2 (butlast (clusters k ms)) of
        Inl e \<Rightarrow> Inl e
      | Inr rs \<Rightarrow> Inr (rs, last (clusters k ms)))"
proof (induction ms rule: rev_induct)
  case Nil
  then show ?case by simp
next
  case (snoc m ms)
  let ?cs = "clusters k ms"
  show ?case
  proof (cases "ms = []")
    case True
    then show ?thesis
      by (simp add: clusters_single cluster_step_def closed_regions_def)
  next
    case False
    then have cne: "?cs \<noteq> []" and lne: "last ?cs \<noteq> []"
      using clusters_props [of k ms] by (auto simp: last_in_set)
    have bl: "?cs = butlast ?cs @ [last ?cs]"
      using cne by simp
    have IH: "foldl (cluster_step k t1 t2) (Inr ([], [])) ms =
     (case closed_regions k t1 t2 (butlast ?cs) of
        Inl e \<Rightarrow> Inl e
      | Inr rs \<Rightarrow> Inr (rs, last ?cs))"
      using snoc False by simp
    have step: "foldl (cluster_step k t1 t2) (Inr ([], [])) (ms @ [m]) =
        cluster_step k t1 t2
          (case closed_regions k t1 t2 (butlast ?cs) of
             Inl e \<Rightarrow> Inl e
           | Inr rs \<Rightarrow> Inr (rs, last ?cs)) m"
      by (simp add: IH)
    have closed: "closed_regions k t1 t2 ?cs =
         (case closed_regions k t1 t2 (butlast ?cs) of
            Inl e \<Rightarrow> Inl e
          | Inr rs \<Rightarrow>
              if 2 \<le> length (last ?cs)
              then (case createSharedRegion k (last ?cs) t1 t2 of
                      Inl e \<Rightarrow> Inl e | Inr r \<Rightarrow> Inr (rs @ [r]))
              else Inr rs)"
      using closed_regions_snoc [of k t1 t2 "butlast ?cs" "last ?cs"] bl by simp
    show ?thesis
    proof (cases "shouldMerge k (last (last ?cs)) m")
      case True
      then have cs': "clusters k (ms @ [m]) = butlast ?cs @ [last ?cs @ [m]]"
        using cne by (simp add: clusters_snoc cluster_split_step_def)
      show ?thesis
        unfolding step cs'
        using True lne
        by (cases "closed_regions k t1 t2 (butlast ?cs)") (simp_all add: cluster_step_def)
    next
      case nm: False
      then have cs': "clusters k (ms @ [m]) = ?cs @ [[m]]"
        using cne by (simp add: clusters_snoc cluster_split_step_def)
      show ?thesis
        unfolding step cs'
        using nm lne closed
        by (cases "closed_regions k t1 t2 (butlast ?cs)")
          (simp_all add: cluster_step_def split: sum.splits)
    qed
  qed
qed

lemma clusterMatchesIntoRegions_clusters:
  "clusterMatchesIntoRegions k ms t1 t2 =
     (case closed_regions k t1 t2 (clusters k ms) of
        Inl e \<Rightarrow> Inl e
      | Inr rs \<Rightarrow> mergeOverlappingRegions rs)"
proof (cases "ms = []")
  case True
  then show ?thesis
    by (simp add: clusterMatchesIntoRegions_def clusters_Nil closed_regions_def)
next
  case False
  let ?cs = "clusters k ms"
  have cne: "?cs \<noteq> []"
    using clusters_props [of k ms] False by simp
  then have bl: "?cs = butlast ?cs @ [last ?cs]"
    by simp
  have "closed_regions k t1 t2 ?cs =
         (case closed_regions k t1 t2 (butlast ?cs) of
            Inl e \<Rightarrow> Inl e
          | Inr rs \<Rightarrow>
              if 2 \<le> length (last ?cs)
              then (case createSharedRegion k (last ?cs) t1 t2 of
                      Inl e \<Rightarrow> Inl e | Inr r \<Rightarrow> Inr (rs @ [r]))
              else Inr rs)"
    using closed_regions_snoc [of k t1 t2 "butlast ?cs" "last ?cs"] bl by simp
  then show ?thesis
    using cluster_loop_invariant [OF False, of k t1 t2]
    by (auto simp: clusterMatchesIntoRegions_def split: sum.splits)
qed

lemma js_rem_nonneg: "0 \<le> a \<Longrightarrow> 0 < b \<Longrightarrow> js_rem a b = a mod b"
  by (cases "a = 0") (simp_all add: js_rem_def)

lemma estimatePosition_valid:
  assumes "0 \<le> a" and "a \<le> b"
  shows "Region_valid (fst (estimatePosition a)) (snd (estimatePosition a))
           (fst (estimatePosition b)) (snd (estimatePosition b))"
proof -
  have "a div 10 < b div 10 \<or> (a div 10 = b div 10 \<and> a mod 10 \<le> b mod 10)"
    using assms by presburger
  moreover have "0 \<le> b" using assms by simp
  ultimately show ?thesis
    using assms(1) unfolding estimatePosition_def Region_valid_def
    by (simp only: fst_conv snd_conv js_rem_nonneg zero_less_numeral) linarith
qed

lemma Region_new_estimate:
  assumes "0 \<le> a" and "a \<le> b"
  shows "\<exists>r. Region_new (fst (estimatePosition a)) (snd (estimatePosition a))
           (fst (estimatePosition b)) (snd (estimatePosition b)) = Inr r \<and> Region_wf r"
  using estimatePosition_valid [OF assms]
  by (simp add: Region_new_def Region_wf_def)

lemma sequence_err_map_ok:
  "(\<forall>x\<in>set xs. \<exists>v. f x = Inr v \<and> P v) \<Longrightarrow>
   \<exists>vs. sequence_err (map f xs) = Inr vs \<and> (\<forall>v\<in>set vs. P v)"
  by (induction xs) auto

lemma createRegionsFromFingerprints_ok:
  assumes "\<forall>fp\<in>set efps. fp_ok fp"
  shows "\<exists>rs. createRegionsFromFingerprints efps = Inr rs"
proof -
  have "\<forall>fp\<in>set efps. \<exists>v. (let startPos = estimatePosition (start fp);
                      endPos = estimatePosition (stop fp)
                  in Region_new (fst startPos) (snd startPos) (fst endPos) (snd endPos)) = Inr v
            \<and> Region_wf v"
    using assms Region_new_estimate by (simp add: fp_ok_def Let_def)
  from sequence_err_map_ok [OF this] show ?thesis
    unfolding createRegionsFromFingerprints_def by blast
qed

lemma enhance_ok:
  assumes "1 \<le> k" and "1 \<le> w" and "fp \<in> set (fingerprints k w d tokens)"
  shows "fp_ok (enhance fp)"
  using fingerprints_bounds_aux [OF assms] by (simp add: fp_ok_def enhance_def)

lemma generateFingerprints_ok:
  assumes "1 \<le> kgramSize det" and "1 \<le> windowSize det"
  shows "\<exists>fd. generateFingerprints det tokens = Inr fd \<and>
           fingerprintSet fd
             = set (map hash (fingerprints (kgramSize det) (windowSize det) True tokens)) \<and>
           positionedFingerprints fd
             = map enhance (fingerprints (kgramSize det) (windowSize det) True tokens)"
proof (cases "length tokens < kgramSize det")
  case True
  have "fingerprints (kgramSize det) (windowSize det) True tokens = []"
    by (rule fingerprints_short) (use assms True in simp_all)
  then show ?thesis
    using True by (simp add: generateFingerprints_def)
next
  case False
  have "\<forall>fp\<in>set (map enhance (fingerprints (kgramSize det) (windowSize det) True tokens)).
          fp_ok fp"
    using enhance_ok [OF assms] by auto
  from createRegionsFromFingerprints_ok [OF this] obtain rs where
    "createRegionsFromFingerprints
       (map enhance (fingerprints (kgramSize det) (windowSize det) True tokens)) = Inr rs" ..
  then show ?thesis
    using False by (simp add: generateFingerprints_def Let_def)
qed

lemma foldl_min_props:
  "foldl min x ys \<in> set (x # ys) \<and> (\<forall>y\<in>set (x # ys). foldl min (x::int) ys \<le> y)"
proof (induction ys arbitrary: x)
  case Nil
  then show ?case by simp
next
  case (Cons a ys)
  from Cons [of "min x a"] show ?case
    by (auto simp: min_def split: if_splits)
qed

lemma foldl_max_props:
  "foldl max x ys \<in> set (x # ys) \<and> (\<forall>y\<in>set (x # ys). y \<le> foldl max (x::int) ys)"
proof (induction ys arbitrary: x)
  case Nil
  then show ?case by simp
next
  case (Cons a ys)
  from Cons [of "max x a"] show ?case
    by (auto simp: max_def split: if_splits)
qed

lemma Math_min_props:
  "xs \<noteq> [] \<Longrightarrow> Math_min xs \<in> set xs \<and> (\<forall>y\<in>set xs. Math_min xs \<le> y)"
  using foldl_min_props by (cases xs) (simp_all add: Math_min_def)

lemma Math_max_props:
  "xs \<noteq> [] \<Longrightarrow> Math_max xs \<in> set xs \<and> (\<forall>y\<in>set xs. y \<le> Math_max xs)"
  using foldl_max_props by (cases xs) (simp_all add: Math_max_def)

lemma cluster_range_ok:
  assumes ne: "cluster \<noteq> []" and ok: "\<forall>m\<in>set cluster. fp_ok (sel m)"
  shows "0 \<le> Math_min (map (\<lambda>m. start (sel m)) cluster) \<and>
         Math_min (map (\<lambda>m. start (sel m)) cluster)
           \<le> Math_max (map (\<lambda>m. stop (sel m)) cluster)"
proof -
  let ?starts = "map (\<lambda>m. start (sel m)) cluster" and ?stops = "map (\<lambda>m. stop (sel m)) cluster"
  have s: "Math_min ?starts \<in> set ?starts" "\<forall>y\<in>set ?starts. Math_min ?starts \<le> y"
    using Math_min_props [of ?starts] ne by simp_all
  have t: "\<forall>y\<in>set ?stops. y \<le> Math_max ?stops"
    using Math_max_props [of ?stops] ne by simp
  obtain m0 where m0: "m0 \<in> set cluster" "Math_min ?starts = start (sel m0)"
    using s(1) by auto
  have "0 \<le> start (sel m0)" "start (sel m0) \<le> stop (sel m0)"
    using ok m0(1) by (simp_all add: fp_ok_def)
  moreover have "stop (sel m0) \<le> Math_max ?stops"
    using t m0(1) by simp
  ultimately show ?thesis
    using m0(2) by simp
qed

lemma createSharedRegion_ok:
  assumes ne: "cluster \<noteq> []" and ok: "\<forall>m\<in>set cluster. match_ok m"
  shows "\<exists>r. createSharedRegion k cluster t1 t2 = Inr r \<and> region_ok r"
proof -
  have r1: "0 \<le> Math_min (map (\<lambda>m. start (fp1 m)) cluster) \<and>
         Math_min (map (\<lambda>m. start (fp1 m)) cluster)
           \<le> Math_max (map (\<lambda>m. stop (fp1 m)) cluster)"
    by (rule cluster_range_ok [OF ne]) (use ok in \<open>simp add: match_ok_def\<close>)
  have r2: "0 \<le> Math_min (map (\<lambda>m. start (fp2 m)) cluster) \<and>
         Math_min (map (\<lambda>m. start (fp2 m)) cluster)
           \<le> Math_max (map (\<lambda>m. stop (fp2 m)) cluster)"
    by (rule cluster_range_ok [OF ne]) (use ok in \<open>simp add: match_ok_def\<close>)
  from r1 Region_new_estimate obtain a where a:
    "Region_new (fst (estimatePosition (Math_min (map (\<lambda>m. start (fp1 m)) cluster))))
       (snd (estimatePosition (Math_min (map (\<lambda>m. start (fp1 m)) cluster))))
       (fst (estimatePosition (Math_max (map (\<lambda>m. stop (fp1 m)) cluster))))
       (snd (estimatePosition (Math_max (map (\<lambda>m. stop (fp1 m)) cluster)))) = Inr a"
    "Region_wf a"
    by blast
  from r2 Region_new_estimate obtain b where b:
    "Region_new (fst (estimatePosition (Math_min (map (\<lambda>m. start (fp2 m)) cluster))))
       (snd (estimatePosition (Math_min (map (\<lambda>m. start (fp2 m)) cluster))))
       (fst (estimatePosition (Math_max (map (\<lambda>m. stop (fp2 m)) cluster))))
       (snd (estimatePosition (Math_max (map (\<lambda>m. stop (fp2 m)) cluster)))) = Inr b"
    "Region_wf b"
    by blast
  show ?thesis
    using a b by (simp add: createSharedRegion_def Let_def comp_def region_ok_def)
qed

lemma merge_current_ok:
  assumes "region_ok c" and "region_ok n"
  shows "\<exists>r. merge_current c n = Inr r \<and> region_ok r"
proof -
  from Region_merge_cover_aux [of "region1 c" "region1 n"] assms
  obtain a where a: "Region_merge (region1 c) (region1 n) = Inr a" "Region_wf a"
    by (auto simp: region_ok_def)
  from Region_merge_cover_aux [of "region2 c" "region2 n"] assms
  obtain b where b: "Region_merge (region2 c) (region2 n) = Inr b" "Region_wf b"
    by (auto simp: region_ok_def)
  show ?thesis
    using a b by (simp add: merge_current_def region_ok_def)
qed

lemma merge_loop_ok:
  "region_ok current \<Longrightarrow> \<forall>r\<in>set rest. region_ok r \<Longrightarrow>
   \<exists>out. merge_loop merged current rest = Inr out"
proof (induction rest arbitrary: merged current)
  case Nil
  then show ?case by simp
next
  case (Cons n rest)
  then have n: "region_ok n" and rest: "\<forall>r\<in>set rest. region_ok r"
    by simp_all
  show ?case
  proof (cases "overlapsWith (region1 current) (region1 n)")
    case True
    from merge_current_ok [OF Cons.prems(1) n] obtain c where
      c: "merge_current current n = Inr c" "region_ok c" by blast
    from Cons.IH [OF c(2) rest, of merged] show ?thesis
      using True c(1) by simp
  next
    case False
    from Cons.IH [OF n rest, of "merged @ [current]"] show ?thesis
      using False by simp
  qed
qed

lemma mergeOverlappingRegions_ok:
  assumes "\<forall>r\<in>set rs. region_ok r"
  shows "\<exists>out. mergeOverlappingRegions rs = Inr out"
proof (cases "length rs \<le> 1")
  case True
  then show ?thesis by (simp add: mergeOverlappingRegions_def)
next
  case False
  let ?s = "sort_key (\<lambda>r. fst (file1Range r)) rs"
  have ne: "?s \<noteq> []"
    using False by (metis length_sort list.size(3) zero_le)
  have all: "\<forall>r\<in>set ?s. region_ok r"
    using assms by simp
  have "xs \<noteq> [] \<Longrightarrow> hd xs \<in> set xs \<and> set (tl xs) \<subseteq> set xs" for xs :: "SharedRegion list"
    by (cases xs) auto
  from this [OF ne] have "region_ok (hd ?s)" "\<forall>r\<in>set (tl ?s). region_ok r"
    using all by blast+
  from merge_loop_ok [OF this, of "[]"] show ?thesis
    using False by (simp add: mergeOverlappingRegions_def Let_def)
qed

lemma clusters_subset:
  assumes "c \<in> set (clusters k ms)"
  shows "c \<noteq> [] \<and> set c \<subseteq> set ms"
proof -
  have "concat (clusters k ms) = ms" and "c \<noteq> []"
    using clusters_props [of k ms] assms by simp_all
  moreover have "set c \<subseteq> set (concat (clusters k ms))"
    using assms by auto
  ultimately show ?thesis by simp
qed

lemma clusterMatchesIntoRegions_ok:
  assumes "\<forall>m\<in>set ms. match_ok m"
  shows "\<exists>out. clusterMatchesIntoRegions k ms t1 t2 = Inr out"
proof -
  have "\<forall>c\<in>set (filter (\<lambda>c. 2 \<le> length c) (clusters k ms)).
          \<exists>r. createSharedRegion k c t1 t2 = Inr r \<and> region_ok r"
  proof
    fix c assume "c \<in> set (filter (\<lambda>c. 2 \<le> length c) (clusters k ms))"
    then have "c \<in> set (clusters k ms)" by simp
    from clusters_subset [OF this] show "\<exists>r. createSharedRegion k c t1 t2 = Inr r \<and> region_ok r"
      using assms by (intro createSharedRegion_ok) auto
  qed
  from sequence_err_map_ok [OF this] obtain rs where
    rs: "closed_regions k t1 t2 (clusters k ms) = Inr rs" "\<forall>r\<in>set rs. region_ok r"
    unfolding closed_regions_def by blast
  from mergeOverlappingRegions_ok [OF rs(2)] show ?thesis
    by (simp add: clusterMatchesIntoRegions_clusters rs(1))
qed

lemma findMatches_members:
  assumes "m \<in> set (findMatches fps1 fps2)"
  shows "fp1 m \<in> set fps1 \<and> fp2 m \<in> set fps2"
  using assms by (auto simp: findMatches_def Let_def)

lemma findSharedRegions_ok:
  assumes "\<forall>fp\<in>set fps1. fp_ok fp" and "\<forall>fp\<in>set fps2. fp_ok fp"
  shows "\<exists>out. findSharedRegions k fps1 fps2 t1 t2 = Inr out"
proof -
  have "\<forall>m\<in>set (sort_key (\<lambda>m. position (fp1 m)) (findMatches fps1 fps2)). match_ok m"
    using assms findMatches_members by (auto simp: match_ok_def)
  from clusterMatchesIntoRegions_ok [OF this] show ?thesis
    by (simp add: findSharedRegions_def Let_def)
qed

lemma jaccard_commute: "jaccard X Y = jaccard Y X"
  by (simp add: jaccard_def Int_commute Un_commute)

lemma jaccard_bounds:
  assumes "finite X" and "finite Y"
  shows "0 \<le> jaccard X Y \<and> jaccard X Y \<le> 1"
proof -
  show ?thesis
  proof (cases "X \<union> Y = {}")
    case True
    then show ?thesis by (simp add: jaccard_def)
  next
    case False
    have le: "card (X \<inter> Y) \<le> card (X \<union> Y)"
      using assms by (intro card_mono) auto
    have "0 < card (X \<union> Y)"
      using assms False by (simp add: card_gt_0_iff)
    then have "real (card (X \<inter> Y)) / real (card (X \<union> Y)) \<le> 1"
      using le by (simp add: divide_le_eq_1)
    then show ?thesis
      using False by (simp add: jaccard_def)
  qed
qed

lemma jaccard_code:
  assumes "finite X" and "finite Y"
  shows "(if card (X \<union> Y) > 0
          then real (card {f \<in> X. f \<in> Y}) / real (card (X \<union> Y)) else 0) = jaccard X Y"
proof -
  have "{f \<in> X. f \<in> Y} = X \<inter> Y" by auto
  moreover have "0 < card (X \<union> Y) \<longleftrightarrow> X \<union> Y \<noteq> {}"
    using assms by (simp add: card_gt_0_iff)
  ultimately show ?thesis
    by (simp add: jaccard_def)
qed

lemma jaccard_self:
  assumes "finite X" and "X \<noteq> {}"
  shows "jaccard X X = 1"
  using assms by (simp add: jaccard_def)

lemma compareTwoFiles_result:
  assumes "1 \<le> kgramSize det" and "1 \<le> windowSize det"
  shows "\<exists>r. compareTwoFiles det A B = Inr r \<and>
           similarity r =
             jaccard (set (map hash (fingerprints (kgramSize det) (windowSize det) True A)))
                     (set (map hash (fingerprints (kgramSize det) (windowSize det) True B)))"
proof -
  let ?k = "kgramSize det" and ?w = "windowSize det"
  from generateFingerprints_ok [OF assms, of A] obtain fa where
    fa: "generateFingerprints det A = Inr fa"
        "fingerprintSet fa = set (map hash (fingerprints ?k ?w True A))"
        "positionedFingerprints fa = map enhance (fingerprints ?k ?w True A)"
    by blast
  from generateFingerprints_ok [OF assms, of B] obtain fb where
    fb: "generateFingerprints det B = Inr fb"
        "fingerprintSet fb = set (map hash (fingerprints ?k ?w True B))"
        "positionedFingerprints fb = map enhance (fingerprints ?k ?w True B)"
    by blast
  have oka: "\<forall>fp\<in>set (positionedFingerprints fa). fp_ok fp"
    using enhance_ok [OF assms] unfolding fa(3) by auto
  have okb: "\<forall>fp\<in>set (positionedFingerprints fb). fp_ok fp"
    using enhance_ok [OF assms] unfolding fb(3) by auto
  from findSharedRegions_ok [OF oka okb] obtain out where
    out: "findSharedRegions ?k (positionedFingerprints fa) (positionedFingerprints fb) A B
            = Inr out"
    by blast
  have fin: "finite (fingerprintSet fa)" "finite (fingerprintSet fb)"
    by (simp_all add: fa(2) fb(2))
  have "\<exists>r. compareTwoFiles det A B = Inr r \<and>
           similarity r = jaccard (fingerprintSet fa) (fingerprintSet fb)"
    unfolding compareTwoFiles_def fa(1) fb(1)
    by (simp add: Let_def out jaccard_code [OF fin])
  then show ?thesis
    unfolding fa(2) fb(2) .
qed

lemma similarity_properties_aux:
  assumes det: "PascalPlagiarismDetector_new k w = Inr det" and k: "1 \<le> k"
  shows "\<exists>rAB rBA. compareTwoFiles det A B = Inr rAB \<and> compareTwoFiles det B A = Inr rBA \<and>
           similarity rAB = similarity rBA \<and> 0 \<le> similarity rAB \<and> similarity rAB \<le> 1 \<and>
           similarity rAB = jaccard (set (map hash (fingerprints k w True A)))
                                    (set (map hash (fingerprints k w True B))) \<and>
           (k \<le> length A \<longrightarrow>
              (\<exists>rAA. compareTwoFiles det A A = Inr rAA \<and> similarity rAA = 1))"
proof -
  have d: "kgramSize det = k" "windowSize det = w" and wk: "k \<le> w"
    using det by (auto simp: PascalPlagiarismDetector_new_def split: if_splits)
  have k1: "1 \<le> kgramSize det" and w1: "1 \<le> windowSize det"
    using k wk d by simp_all
  let ?HA = "set (map hash (fingerprints k w True A))"
  let ?HB = "set (map hash (fingerprints k w True B))"
  from compareTwoFiles_result [OF k1 w1, of A B] obtain rAB where
    ab: "compareTwoFiles det A B = Inr rAB" "similarity rAB = jaccard ?HA ?HB"
    unfolding d by blast
  from compareTwoFiles_result [OF k1 w1, of B A] obtain rBA where
    ba: "compareTwoFiles det B A = Inr rBA" "similarity rBA = jaccard ?HB ?HA"
    unfolding d by blast
  from compareTwoFiles_result [OF k1 w1, of A A] obtain rAA where
    aa: "compareTwoFiles det A A = Inr rAA" "similarity rAA = jaccard ?HA ?HA"
    unfolding d by blast
  have sym: "similarity rAB = similarity rBA"
    using ab(2) ba(2) jaccard_commute by simp
  have bnd: "0 \<le> similarity rAB \<and> similarity rAB \<le> 1"
    unfolding ab(2) by (rule jaccard_bounds) simp_all
  have self: "similarity rAA = 1" if "k \<le> length A"
  proof -
    have "fingerprints k w True A \<noteq> []"
      by (rule fingerprints_nonempty) (use k wk that in simp_all)
    then have "?HA \<noteq> {}" by simp
    then show ?thesis
      unfolding aa(2) by (intro jaccard_self) simp_all
  qed
  show ?thesis
    using ab ba sym bnd aa(1) self by blast
qed

lemma short_input_aux:
  assumes "1 \<le> k" and "1 \<le> w"
  shows "fingerprints k w d [] = [] \<and>
         (length tokens < k \<longrightarrow> fingerprints k w d tokens = []) \<and>
         (length tokens < kgramSize det \<longrightarrow>
            generateFingerprints det tokens
              = Inr \<lparr>fingerprintSet = {}, fingerprintArray = [], positionedFingerprints = [],
                     regions = []\<rparr>)"
proof -
  have w0: "0 < w" using assms(2) by simp
  have "fingerprints k w d [] = []"
    by (rule fingerprints_short [OF assms(1) w0]) (use assms(1) in simp)
  moreover have "fingerprints k w d tokens = []" if "length tokens < k"
    by (rule fingerprints_short [OF assms(1) w0 that])
  ultimately show ?thesis
    by (simp add: generateFingerprints_def)
qed

text \<open>
  C3. For a detector built with \<open>k \<ge> 1\<close> (the constructor demands \<open>w \<ge> k\<close>),
  \<^verbatim>\<open>compareTwoFiles\<close> returns a result for every two token sequences; its similarity is
  the same in both orders, lies in \<open>[0, 1]\<close>, is the Jaccard index of the two sets of
  distinct fingerprint hashes, and is 1 when a file with at least \<open>k\<close> tokens is compared
  with itself.
\<close>

theorem similarity_properties:
  assumes "PascalPlagiarismDetector_new k w = Inr det" and "1 \<le> k"
  shows "\<exists>rAB rBA. compareTwoFiles det A B = Inr rAB \<and> compareTwoFiles det B A = Inr rBA \<and>
           similarity rAB = similarity rBA \<and> 0 \<le> similarity rAB \<and> similarity rAB \<le> 1 \<and>
           similarity rAB = jaccard (set (map hash (fingerprints k w True A)))
                                    (set (map hash (fingerprints k w True B))) \<and>
           (k \<le> length A \<longrightarrow>
              (\<exists>rAA. compareTwoFiles det A A = Inr rAA \<and> similarity rAA = 1))"
  using assms by (rule similarity_properties_aux)

theorem similarity_properties_witness:
  "PascalPlagiarismDetector_new 1 2 = Inr \<lparr>kgramSize = 1, windowSize = 2\<rparr> \<and> (1::nat) \<le> 1 \<and>
   (1::nat) \<le> length [[97], [98], [98], [98 :: 16 word]] \<and>
   (\<exists>rAA. compareTwoFiles \<lparr>kgramSize = 1, windowSize = 2\<rparr>
            [[97], [98], [98], [98]] [[97], [98], [98], [98]] = Inr rAA \<and> similarity rAA = 1) \<and>
   (\<exists>rAB rBA. compareTwoFiles \<lparr>kgramSize = 1, windowSize = 2\<rparr>
            [[97], [98], [98], [98]] [[99]] = Inr rAB \<and>
       compareTwoFiles \<lparr>kgramSize = 1, windowSize = 2\<rparr>
            [[99]] [[97], [98], [98], [98]] = Inr rBA \<and>
       similarity rAB = similarity rBA \<and> 0 \<le> similarity rAB \<and> similarity rAB \<le> 1)"
proof -
  have d: "PascalPlagiarismDetector_new 1 2 = Inr \<lparr>kgramSize = 1, windowSize = 2\<rparr>"
    by (simp add: PascalPlagiarismDetector_new_def)
  from similarity_properties [OF d, of "[[97], [98], [98], [98]]" "[[99]]"] d
  show ?thesis
    by auto
qed

text \<open>
  C6. For \<open>k \<ge> 1\<close> and \<open>w \<ge> 1\<close>, \<^verbatim>\<open>fingerprints\<close> of the empty token sequence and of
  any sequence with fewer than \<open>k\<close> tokens is the empty sequence, a value and not an error;
  \<^verbatim>\<open>generateFingerprints\<close> likewise returns its empty record for fewer than
  \<^verbatim>\<open>kgramSize\<close> tokens.
\<close>

theorem short_input_gives_no_fingerprints:
  assumes "1 \<le> k" and "1 \<le> w"
  shows "fingerprints k w d [] = [] \<and>
         (length tokens < k \<longrightarrow> fingerprints k w d tokens = []) \<and>
         (length tokens < kgramSize det \<longrightarrow>
            generateFingerprints det tokens
              = Inr \<lparr>fingerprintSet = {}, fingerprintArray = [], positionedFingerprints = [],
                     regions = []\<rparr>)"
  using assms by (rule short_input_aux)

theorem short_input_gives_no_fingerprints_witness:
  "(1::nat) \<le> 3 \<and> (1::nat) \<le> 2 \<and> length [[97], [98 :: 16 word]] < 3 \<and>
   fingerprints 3 2 True [] = [] \<and>
   fingerprints 3 2 True [[97], [98]] = [] \<and>
   generateFingerprints \<lparr>kgramSize = 3, windowSize = 4\<rparr> [[97], [98]]
     = Inr \<lparr>fingerprintSet = {}, fingerprintArray = [], positionedFingerprints = [],
            regions = []\<rparr>"
  using short_input_gives_no_fingerprints
    [of 3 2 True "[[97], [98]]" "\<lparr>kgramSize = 3, windowSize = 4\<rparr>"]
  by simp

lemma clusters_unique:
  "concat cs = ms \<Longrightarrow> (\<forall>c\<in>set cs. c \<noteq> [] \<and> successively (shouldMerge k) c) \<Longrightarrow>
   successively (\<lambda>c c'. \<not> shouldMerge k (last c) (hd c')) cs \<Longrightarrow> cs = clusters k ms"
proof (induction ms arbitrary: cs rule: rev_induct)
  case Nil
  then have "cs = []"
    by (cases cs) auto
  then show ?case by (simp add: clusters_Nil)
next
  case (snoc m ms)
  then have cne: "cs \<noteq> []" by auto
  define cs' where "cs' = butlast cs"
  define c where "c = last cs"
  have cs: "cs = cs' @ [c]" using cne by (simp add: cs'_def c_def)
  have c_ne: "c \<noteq> []" and c_succ: "successively (shouldMerge k) c"
    using snoc.prems(2) cs by simp_all
  have cs'_ok: "\<forall>x\<in>set cs'. x \<noteq> [] \<and> successively (shouldMerge k) x"
    using snoc.prems(2) cs by simp
  have btw: "successively (\<lambda>c c'. \<not> shouldMerge k (last c) (hd c')) cs'"
    and link: "cs' = [] \<or> \<not> shouldMerge k (last (last cs')) (hd c)"
    using snoc.prems(3) unfolding cs by (simp_all add: successively_snoc)
  have cat: "concat cs' @ c = ms @ [m]"
    using snoc.prems(1) cs by simp
  define c' where "c' = butlast c"
  have c: "c = c' @ [m]"
    using cat c_ne by (metis append_butlast_last_id c'_def last_appendR snoc_eq_iff_butlast)
  have ms: "ms = concat cs' @ c'"
    using cat c by simp
  show ?case
  proof (cases "c' = []")
    case True
    then have ms': "concat cs' = ms" using ms by simp
    have IH: "cs' = clusters k ms"
      by (rule snoc.IH [OF ms' cs'_ok btw])
    show ?thesis
    proof (cases "cs' = []")
      case True
      then have "ms = []" using ms' by simp
      then show ?thesis
        using True \<open>c' = []\<close> cs c by (simp add: clusters_single)
    next
      case False
      then have "ms \<noteq> []"
        using ms' cs'_ok by (metis concat_eq_Nil_conv last_in_set)
      then have "last (last (clusters k ms)) = last ms"
        by (rule clusters_last_last)
      moreover have "\<not> shouldMerge k (last (last cs')) m"
        using link False c True by simp
      ultimately have "clusters k (ms @ [m]) = clusters k ms @ [[m]]"
        using False IH by (simp add: clusters_snoc cluster_split_step_def)
      then show ?thesis
        using IH cs c True by simp
    qed
  next
    case False
    have succ': "successively (shouldMerge k) c'" and pm: "shouldMerge k (last c') m"
      using c_succ False unfolding c by (simp_all add: successively_snoc)
    have hd: "hd c = hd c'" using False c by simp
    have "\<forall>x\<in>set (cs' @ [c']). x \<noteq> [] \<and> successively (shouldMerge k) x"
      using cs'_ok False succ' by simp
    moreover have "successively (\<lambda>c c'. \<not> shouldMerge k (last c) (hd c')) (cs' @ [c'])"
      using btw link hd by (simp add: successively_snoc)
    moreover have "concat (cs' @ [c']) = ms" using ms by simp
    ultimately have IH: "cs' @ [c'] = clusters k ms"
      using snoc.IH by blast
    have "ms \<noteq> []" using ms False by simp
    then have "last (last (clusters k ms)) = last ms"
      by (rule clusters_last_last)
    also have "last ms = last c'" using ms False by simp
    finally have "shouldMerge k (last (last (clusters k ms))) m"
      using pm by simp
    then have "clusters k (ms @ [m]) = butlast (clusters k ms) @ [last (clusters k ms) @ [m]]"
      using IH [symmetric] by (simp add: clusters_snoc cluster_split_step_def)
    then show ?thesis
      using IH [symmetric] cs c by simp
  qed
qed

text \<open>
  C9. \<^verbatim>\<open>shouldMerge\<close> holds exactly when the gap in file A (position of the match minus
  the stop of the cluster's last match) is at most \<open>2k\<close>, the gap in file B (absolute) is
  at most \<open>2k\<close>, and the drift is at most \<open>k\<close>. The loop splits the matches, in their
  order, into nonempty clusters such that inside a cluster each match satisfies
  \<^verbatim>\<open>shouldMerge\<close> with the one before it and the first match of a cluster fails it with
  the last match of the cluster before, and this split is the only one with these
  properties; the SharedRegions it hands to
  \<^verbatim>\<open>mergeOverlappingRegions\<close> are those of the clusters with at least two matches, so a
  cluster with fewer than two produces none.
\<close>

theorem clustering_rule:
  "(shouldMerge k lastMatch match \<longleftrightarrow>
      position (fp1 match) - stop (fp1 lastMatch) \<le> 2 * int k \<and>
      \<bar>position (fp2 match) - stop (fp2 lastMatch)\<bar> \<le> 2 * int k \<and>
      \<bar>(position (fp1 match) - position (fp1 lastMatch))
         - (position (fp2 match) - position (fp2 lastMatch))\<bar> \<le> int k) \<and>
   concat (clusters k matches) = matches \<and>
   (\<forall>c\<in>set (clusters k matches). c \<noteq> [] \<and> successively (shouldMerge k) c) \<and>
   successively (\<lambda>c c'. \<not> shouldMerge k (last c) (hd c')) (clusters k matches) \<and>
   (\<forall>cs. concat cs = matches \<and>
         (\<forall>c\<in>set cs. c \<noteq> [] \<and> successively (shouldMerge k) c) \<and>
         successively (\<lambda>c c'. \<not> shouldMerge k (last c) (hd c')) cs
         \<longrightarrow> cs = clusters k matches) \<and>
   clusterMatchesIntoRegions k matches tokens1 tokens2 =
     (case sequence_err (map (\<lambda>c. createSharedRegion k c tokens1 tokens2)
             (filter (\<lambda>c. 2 \<le> length c) (clusters k matches))) of
        Inl e \<Rightarrow> Inl e
      | Inr rs \<Rightarrow> mergeOverlappingRegions rs)"
proof -
  have "shouldMerge k lastMatch match \<longleftrightarrow>
      position (fp1 match) - stop (fp1 lastMatch) \<le> 2 * int k \<and>
      \<bar>position (fp2 match) - stop (fp2 lastMatch)\<bar> \<le> 2 * int k \<and>
      \<bar>(position (fp1 match) - position (fp1 lastMatch))
         - (position (fp2 match) - position (fp2 lastMatch))\<bar> \<le> int k"
    by (simp add: shouldMerge_def Let_def mult.commute)
  moreover have "\<forall>cs. concat cs = matches \<and>
         (\<forall>c\<in>set cs. c \<noteq> [] \<and> successively (shouldMerge k) c) \<and>
         successively (\<lambda>c c'. \<not> shouldMerge k (last c) (hd c')) cs
         \<longrightarrow> cs = clusters k matches"
    using clusters_unique by blast
  ultimately show ?thesis
    using clusters_props [of k matches] clusters_runs [of k matches]
      clusterMatchesIntoRegions_clusters [of k matches tokens1 tokens2]
    by (simp add: closed_regions_def)
qed

theorem clustering_rule_witness:
  "shouldMerge 2 (example_match 0 0) (example_match 1 1) \<and>
   \<not> shouldMerge 2 (example_match 1 1) (example_match 20 30) \<and>
   clusters 2 [example_match 0 0, example_match 1 1, example_match 20 30]
     = [[example_match 0 0, example_match 1 1], [example_match 20 30]] \<and>
   clusterMatchesIntoRegions 2
       [example_match 0 0, example_match 1 1, example_match 20 30] [] [] =
     (case sequence_err (map (\<lambda>c. createSharedRegion 2 c [] [])
             (filter (\<lambda>c. 2 \<le> length c)
                (clusters 2 [example_match 0 0, example_match 1 1, example_match 20 30]))) of
        Inl e \<Rightarrow> Inl e
      | Inr rs \<Rightarrow> mergeOverlappingRegions rs)"
proof -
  have a: "shouldMerge 2 (example_match 0 0) (example_match 1 1)"
    and b: "\<not> shouldMerge 2 (example_match 1 1) (example_match 20 30)"
    by (simp_all add: shouldMerge_def example_match_def example_fp_def)
  have c: "clusters 2 [example_match 0 0, example_match 1 1, example_match 20 30]
     = [[example_match 0 0, example_match 1 1], [example_match 20 30]]"
    using a b by (simp add: clusters_def cluster_split_step_def)
  from clustering_rule [of 2 "example_match 0 0" "example_match 1 1"
      "[example_match 0 0, example_match 1 1, example_match 20 30]" "[]" "[]"] a b c
  show ?thesis
    by simp
qed

section \<open>TokenHash\<close>

lemma no_divisor_from_sound:
  "no_divisor_from n d \<Longrightarrow> 0 < d \<Longrightarrow> d \<le> e \<Longrightarrow> e * e \<le> n \<Longrightarrow> \<not> e dvd n"
proof (induction n d rule: no_divisor_from.induct)
  case (1 n d)
  have dd: "d * d \<le> n"
  proof -
    have "d * d \<le> e * e"
      using "1.prems" by (intro mult_mono) simp_all
    then show ?thesis using "1.prems" by simp
  qed
  then have c1: "\<not> (n < d * d \<or> d \<le> 0)"
    using "1.prems" by simp
  have c2: "n mod d \<noteq> 0" and rest: "no_divisor_from n (d + 1)"
    using "1.prems"(1) c1 by (subst (asm) no_divisor_from.simps; simp split: if_splits)+
  show ?case
  proof (cases "e = d")
    case True
    then show ?thesis using c2 by (simp add: dvd_eq_mod_eq_0)
  next
    case False
    then have "d + 1 \<le> e" using "1.prems" by simp
    from "1.IH" [OF c1 c2 rest _ this "1.prems"(4)] "1.prems"(2) show ?thesis by simp
  qed
qed

lemma is_prime_by_trial:
  assumes n: "1 < n" and t: "no_divisor_from (int n) 2"
  shows "is_prime n"
  unfolding is_prime_def
proof (intro conjI allI impI)
  show "1 < n" by (rule n)
  fix d assume d: "d dvd n"
  show "d = 1 \<or> d = n"
  proof (rule ccontr)
    assume neg: "\<not> (d = 1 \<or> d = n)"
    obtain q where q: "n = d * q" using d by (auto elim: dvdE)
    have d0: "d \<noteq> 0"
    proof
      assume "d = 0"
      with q n show False by simp
    qed
    have q0: "q \<noteq> 0"
    proof
      assume "q = 0"
      with q n show False by simp
    qed
    have d2: "2 \<le> d" using neg d0 by simp
    have q2: "2 \<le> q" using neg q q0 by (cases "q = 1") simp_all
    define e where "e = min d q"
    have e2: "2 \<le> e" using d2 q2 by (simp add: e_def)
    have ee: "e * e \<le> n"
      unfolding q e_def by (intro mult_mono) (simp_all add: min_def)
    have ed: "e dvd n"
      unfolding q e_def by (simp add: min_def)
    have "\<not> int e dvd int n"
      by (rule no_divisor_from_sound [OF t]) (use e2 ee in \<open>simp_all flip: of_nat_mult\<close>)
    then show False using ed by simp
  qed
qed

lemma hashToken_Nil: "hashToken [] = 0"
  by (simp add: hashToken_def)

lemma hashToken_snoc:
  "hashToken (token @ [c]) = ((hashToken token + unat c) * TokenHash_base) mod TokenHash_mod"
  by (simp add: hashToken_def)

lemma hashToken_range: "hashToken token < TokenHash_mod"
proof (cases token rule: rev_cases)
  case Nil
  then show ?thesis by (simp add: hashToken_def TokenHash_mod_def)
next
  case (snoc ts c)
  then show ?thesis
    by (simp add: hashToken_snoc TokenHash_mod_def)
qed

lemma hashToken_exact:
  "(hashToken token + unat (c :: 16 word)) * TokenHash_base < 2 ^ 53"
proof -
  have "unat c < 2 ^ 16"
    using unsigned_less [of c] by simp
  then have "hashToken token + unat c \<le> TokenHash_mod + 2 ^ 16"
    using hashToken_range [of token] by simp
  then have "(hashToken token + unat c) * TokenHash_base
             \<le> (TokenHash_mod + 2 ^ 16) * TokenHash_base"
    by (rule mult_le_mono1)
  also have "\<dots> < 2 ^ 53"
    by (simp add: TokenHash_mod_def TokenHash_base_def)
  finally show ?thesis .
qed

lemma coprime_by_bezout:
  fixes a b :: nat
  assumes "a * x = b * y + 1"
  shows "coprime a b"
proof (rule coprimeI)
  fix c assume "c dvd a" and "c dvd b"
  then have "c dvd a * x" and "c dvd b * y" by simp_all
  then have "c dvd a * x - b * y" by (rule dvd_diff_nat)
  then show "is_unit c" using assms by simp
qed

lemma TokenHash_base_coprime: "coprime TokenHash_base TokenHash_mod"
  unfolding TokenHash_base_def TokenHash_mod_def
  by (rule coprime_by_bezout [of _ 22679177 _ 505086]) simp

lemma trial_33554393: "no_divisor_from 33554393 2"
  by code_simp

lemma TokenHash_mod_prime: "is_prime TokenHash_mod"
  unfolding TokenHash_mod_def
  by (rule is_prime_by_trial) (simp_all add: trial_33554393)

text \<open>
  C5. \<^verbatim>\<open>hashToken\<close> returns a number in \<open>[0, MOD)\<close> computed by
  \<open>hash = (hash + charCode) * BASE mod MOD\<close> (lemmas \<open>hashToken_Nil\<close>, \<open>hashToken_snoc\<close>,
  \<open>hashToken_range\<close>), \<open>MOD\<close> is prime and \<open>BASE\<close> is coprime to it (\<open>TokenHash_mod_prime\<close>,
  \<open>TokenHash_base_coprime\<close>). But the modulus of the code, 33554393, is \<open>2 ^ 25 - 39\<close>:
  it is below \<open>2 ^ 25\<close>, not at least \<open>2 ^ 25\<close>, although the comment beside the constant
  calls it a 26-bit prime.
\<close>

theorem TokenHash_mod_below_2_25:
  "TokenHash_mod = 33554393 \<and> TokenHash_mod = 2 ^ 25 - 39 \<and> TokenHash_mod < 2 ^ 25 \<and>
   hashToken [97] = 97 * TokenHash_base mod 33554393 \<and> hashToken [97] = 5378053"
  by (simp add: TokenHash_mod_def hashToken_def TokenHash_base_def)

end
